theory Spec2Isabelle
  imports Complex_Main "HOL-Library.Word" "HOL-Library.Multiset"
begin

unbundle bit_operations_syntax

section \<open>main.py: the file tree\<close>

text \<open>
  \<^verbatim>\<open>class FileNode\<close>: \<^verbatim>\<open>name\<close>, \<^verbatim>\<open>is_dir\<close>, \<^verbatim>\<open>size\<close>, \<^verbatim>\<open>content_hash\<close>
  (\<^verbatim>\<open>Optional[str]\<close>, \<^verbatim>\<open>None\<close> until somebody assigns it) and the list \<^verbatim>\<open>children\<close>.
  The functions of main.py only read a tree, so a node is a value of a datatype.
  Strings are byte strings: a Python \<^verbatim>\<open>str\<close> is identified with its UTF-8 encoding.
  The attribute \<^verbatim>\<open>size\<close> is the selector \<open>size_attr\<close>.
\<close>

datatype FileNode =
  FileNode (name: string) (is_dir: bool) (size_attr: int)
           (content_hash: "string option") (children: "FileNode list")

text \<open>\<^verbatim>\<open>add_child\<close>: \<^verbatim>\<open>self.children.append(child)\<close>.\<close>

fun add_child :: "FileNode \<Rightarrow> FileNode \<Rightarrow> FileNode" where
  "add_child child (FileNode n d s h cs) = FileNode n d s h (cs @ [child])"

subsection \<open>hashlib.md5 (standard library)\<close>

text \<open>
  \<^verbatim>\<open>hashlib.md5(s.encode()).hexdigest()\<close>: the MD5 digest of RFC 1321 over the bytes of
  the string, as 32 lower-case hexadecimal digits.
\<close>

definition md5_shifts :: "nat list" where
  "md5_shifts =
     concat (replicate 4 [7, 12, 17, 22]) @ concat (replicate 4 [5, 9, 14, 20]) @
     concat (replicate 4 [4, 11, 16, 23]) @ concat (replicate 4 [6, 10, 15, 21])"

definition md5_K :: "32 word list" where
  "md5_K =
    [0xd76aa478, 0xe8c7b756, 0x242070db, 0xc1bdceee, 0xf57c0faf, 0x4787c62a, 0xa8304613, 0xfd469501,
     0x698098d8, 0x8b44f7af, 0xffff5bb1, 0x895cd7be, 0x6b901122, 0xfd987193, 0xa679438e, 0x49b40821,
     0xf61e2562, 0xc040b340, 0x265e5a51, 0xe9b6c7aa, 0xd62f105d, 0x02441453, 0xd8a1e681, 0xe7d3fbc8,
     0x21e1cde6, 0xc33707d6, 0xf4d50d87, 0x455a14ed, 0xa9e3e905, 0xfcefa3f8, 0x676f02d9, 0x8d2a4c8a,
     0xfffa3942, 0x8771f681, 0x6d9d6122, 0xfde5380c, 0xa4beea44, 0x4bdecfa9, 0xf6bb4b60, 0xbebfbc70,
     0x289b7ec6, 0xeaa127fa, 0xd4ef3085, 0x04881d05, 0xd9d4d039, 0xe6db99e5, 0x1fa27cf8, 0xc4ac5665,
     0xf4292244, 0x432aff97, 0xab9423a7, 0xfc93a039, 0x655b59c3, 0x8f0ccc92, 0xffeff47d, 0x85845dd1,
     0x6fa87e4f, 0xfe2ce6e0, 0xa3014314, 0x4e0811a1, 0xf7537e82, 0xbd3af235, 0x2ad7d2bb, 0xeb86d391]"

definition le_bytes :: "nat \<Rightarrow> nat \<Rightarrow> nat list" where
  "le_bytes k n = map (\<lambda>i. (n div 256 ^ i) mod 256) [0..<k]"

definition md5_pad :: "nat list \<Rightarrow> nat list" where
  "md5_pad bs =
     bs @ [128] @ replicate ((119 - length bs mod 64) mod 64) 0 @
     le_bytes 8 ((8 * length bs) mod 2 ^ 64)"

fun le_word :: "nat list \<Rightarrow> 32 word" where
  "le_word [] = 0"
| "le_word (b # bs) = of_nat b + 256 * le_word bs"

fun chunks :: "nat \<Rightarrow> 'a list \<Rightarrow> 'a list list" where
  "chunks n [] = []"
| "chunks n (x # xs) = (if n = 0 then [] else take n (x # xs) # chunks n (drop n (x # xs)))"

definition md5_step ::
  "32 word list \<Rightarrow> 32 word \<times> 32 word \<times> 32 word \<times> 32 word \<Rightarrow> nat \<Rightarrow>
   32 word \<times> 32 word \<times> 32 word \<times> 32 word" where
  "md5_step M st i =
     (case st of (A, B, C, D) \<Rightarrow>
        let (F, g) =
              (if i < 16 then ((B AND C) OR (NOT B AND D), i)
               else if i < 32 then ((D AND B) OR (NOT D AND C), (5 * i + 1) mod 16)
               else if i < 48 then (B XOR C XOR D, (3 * i + 5) mod 16)
               else (C XOR (B OR NOT D), (7 * i) mod 16));
            F' = F + A + md5_K ! i + M ! g
        in (D, B + word_rotl (md5_shifts ! i) F', B, C))"

definition md5_block ::
  "32 word \<times> 32 word \<times> 32 word \<times> 32 word \<Rightarrow> nat list \<Rightarrow>
   32 word \<times> 32 word \<times> 32 word \<times> 32 word" where
  "md5_block st blk =
     (let M = map le_word (chunks 4 blk) in
      case (st, foldl (md5_step M) st [0..<64]) of
        ((a0, b0, c0, d0), (A, B, C, D)) \<Rightarrow> (a0 + A, b0 + B, c0 + C, d0 + D))"

definition hex_byte :: "nat \<Rightarrow> string" where
  "hex_byte b = [''0123456789abcdef'' ! (b div 16), ''0123456789abcdef'' ! (b mod 16)]"

definition md5_hexdigest :: "string \<Rightarrow> string" where
  "md5_hexdigest s =
     (case foldl md5_block (0x67452301, 0xefcdab89, 0x98badcfe, 0x10325476)
             (chunks 64 (md5_pad (map of_char s))) of
        (a, b, c, d) \<Rightarrow>
          concat (map hex_byte (concat (map (\<lambda>w. le_bytes 4 (unat w)) [a, b, c, d]))))"

subsection \<open>calculate_hash\<close>

text \<open>
  \<^verbatim>\<open>self.content_hash or ''\<close>: \<^verbatim>\<open>None\<close> and the empty string are both falsy and
  give the empty string.
\<close>

definition or_empty :: "string option \<Rightarrow> string" where
  "or_empty h = (case h of None \<Rightarrow> [] | Some c \<Rightarrow> (if c = [] then [] else c))"

fun calculate_hash :: "FileNode \<Rightarrow> string" where
  "calculate_hash (FileNode n d s h cs) =
     (if \<not> d then or_empty h
      else md5_hexdigest (concat (map calculate_hash cs)))"

subsection \<open>get_node_info and compare_trees\<close>

type_synonym node_info = "string \<times> bool \<times> int \<times> string option"

fun get_node_info :: "FileNode \<Rightarrow> node_info list" where
  "get_node_info (FileNode n d s h cs) = (n, d, s, h) # concat (map get_node_info cs)"

text \<open>
  \<^verbatim>\<open>compare_trees\<close> returns the pair \<^verbatim>\<open>(similarity, differences)\<close>. The quotient
  \<^verbatim>\<open>len(intersection) / len(union)\<close> of two machine integers is kept as the exact
  rational. \<^verbatim>\<open>differences\<close> is filled by iterating over the Python set
  \<^verbatim>\<open>union - intersection\<close>, whose iteration order the language does not fix: the
  entries are returned as a multiset, one entry for each element of the set.
\<close>

definition diff_entry :: "string \<Rightarrow> node_info \<Rightarrow> string" where
  "diff_entry owner item = ''Only in '' @ owner @ '': '' @ fst item"

definition compare_trees :: "FileNode \<Rightarrow> FileNode \<Rightarrow> rat \<times> string multiset" where
  "compare_trees tree1 tree2 =
     (let info1 = set (get_node_info tree1);
          info2 = set (get_node_info tree2);
          intersection = info1 \<inter> info2;
          union = info1 \<union> info2;
          similarity = (if union \<noteq> {} then of_nat (card intersection) / of_nat (card union) else 0);
          differences =
            image_mset
              (\<lambda>item. if item \<in> info1 then diff_entry (name tree1) item
                      else diff_entry (name tree2) item)
              (mset_set (union - intersection))
      in (similarity, differences))"

subsection \<open>difflib.SequenceMatcher (standard library)\<close>

text \<open>
  \<^verbatim>\<open>difflib.SequenceMatcher(None, a, b).ratio()\<close> as CPython computes it, with no junk
  predicate and \<^verbatim>\<open>autojunk\<close> left on, on two sequences of elements of any type.
  \<open>chain_b\<close> is the index \<^verbatim>\<open>b2j\<close> from an element to the positions at which it
  occurs in \<open>b\<close>; when \<open>b\<close> has 200 elements or more, an element occurring more than
  \<^verbatim>\<open>len(b) // 100 + 1\<close> times is dropped from the index. \<open>row_loop\<close> is the inner and
  \<open>rows_loop\<close> the outer loop of \<^verbatim>\<open>find_longest_match\<close>; a dictionary
  \<^verbatim>\<open>j2len\<close> read with \<^verbatim>\<open>get(j, 0)\<close> is a function that is 0 where nothing was stored.
  \<open>extend_left\<close> and \<open>extend_right\<close> are the two loops that extend the match by equal
  elements on each side (no element is junk, so the two loops over junk do nothing).
\<close>

definition chain_b :: "'a list \<Rightarrow> 'a \<Rightarrow> nat list" where
  "chain_b b elt =
     (let idxs = filter (\<lambda>i. b ! i = elt) [0..<length b]
      in if 200 \<le> length b \<and> length b div 100 + 1 < length idxs then [] else idxs)"

fun row_loop ::
  "(nat \<Rightarrow> nat) \<Rightarrow> nat \<Rightarrow> nat \<Rightarrow> nat \<Rightarrow> nat list \<Rightarrow>
   (nat \<Rightarrow> nat) \<times> nat \<times> nat \<times> nat \<Rightarrow> (nat \<Rightarrow> nat) \<times> nat \<times> nat \<times> nat" where
  "row_loop j2len i blo bhi [] st = st"
| "row_loop j2len i blo bhi (j # js) (newj2len, besti, bestj, bestsize) =
     (if j < blo then row_loop j2len i blo bhi js (newj2len, besti, bestj, bestsize)
      else if bhi \<le> j then (newj2len, besti, bestj, bestsize)
      else
        let k = (if j = 0 then 0 else j2len (j - 1)) + 1 in
        row_loop j2len i blo bhi js
          (newj2len(j := k),
           if bestsize < k then (i + 1 - k, j + 1 - k, k) else (besti, bestj, bestsize)))"

fun rows_loop ::
  "'a list \<Rightarrow> ('a \<Rightarrow> nat list) \<Rightarrow> nat \<Rightarrow> nat \<Rightarrow> nat list \<Rightarrow>
   (nat \<Rightarrow> nat) \<times> nat \<times> nat \<times> nat \<Rightarrow> nat \<times> nat \<times> nat" where
  "rows_loop a b2j blo bhi [] (j2len, best) = best"
| "rows_loop a b2j blo bhi (i # is) (j2len, best) =
     (case row_loop j2len i blo bhi (b2j (a ! i)) (\<lambda>_. 0, best) of
        (newj2len, best') \<Rightarrow> rows_loop a b2j blo bhi is (newj2len, best'))"

function extend_left :: "'a list \<Rightarrow> 'a list \<Rightarrow> nat \<Rightarrow> nat \<Rightarrow> nat \<times> nat \<times> nat \<Rightarrow> nat \<times> nat \<times> nat" where
  "extend_left a b alo blo (besti, bestj, bestsize) =
     (if alo < besti \<and> blo < bestj \<and> a ! (besti - 1) = b ! (bestj - 1)
      then extend_left a b alo blo (besti - 1, bestj - 1, bestsize + 1)
      else (besti, bestj, bestsize))"
  by pat_completeness auto
termination
  by (relation "measure (\<lambda>(a, b, alo, blo, besti, bestj, bestsize). besti)") auto

function extend_right :: "'a list \<Rightarrow> 'a list \<Rightarrow> nat \<Rightarrow> nat \<Rightarrow> nat \<times> nat \<times> nat \<Rightarrow> nat \<times> nat \<times> nat" where
  "extend_right a b ahi bhi (besti, bestj, bestsize) =
     (if besti + bestsize < ahi \<and> bestj + bestsize < bhi \<and>
         a ! (besti + bestsize) = b ! (bestj + bestsize)
      then extend_right a b ahi bhi (besti, bestj, bestsize + 1)
      else (besti, bestj, bestsize))"
  by pat_completeness auto
termination
  by (relation "measure (\<lambda>(a, b, ahi, bhi, besti, bestj, bestsize). ahi - (besti + bestsize))") auto

definition find_longest_match ::
  "'a list \<Rightarrow> 'a list \<Rightarrow> ('a \<Rightarrow> nat list) \<Rightarrow> nat \<Rightarrow> nat \<Rightarrow> nat \<Rightarrow> nat \<Rightarrow> nat \<times> nat \<times> nat" where
  "find_longest_match a b b2j alo ahi blo bhi =
     extend_right a b ahi bhi
       (extend_left a b alo blo
          (rows_loop a b2j blo bhi [alo..<ahi] (\<lambda>_. 0, alo, blo, 0)))"

text \<open>
  The match that \<open>find_longest_match\<close> returns lies inside the window it was given:
  what the termination of the loop over the queue rests on.
\<close>

lemma row_loop_inv:
  "row_loop j2len i blo bhi js (nj, bi, bj, bs) = (nj', bi', bj', bs') \<Longrightarrow>
   alo \<le> i \<Longrightarrow> \<forall>j. j2len j \<le> i - alo \<Longrightarrow> \<forall>j. nj j \<le> Suc i - alo \<Longrightarrow>
   alo \<le> bi \<Longrightarrow> bi + bs \<le> Suc i \<Longrightarrow>
   (\<forall>j. nj' j \<le> Suc i - alo) \<and> alo \<le> bi' \<and> bi' + bs' \<le> Suc i"
proof (induction js arbitrary: nj bi bj bs)
  case Nil
  then show ?case by auto
next
  case (Cons j js)
  show ?case
  proof (cases "j < blo")
    case True
    with Cons.prems(1) have "row_loop j2len i blo bhi js (nj, bi, bj, bs) = (nj', bi', bj', bs')"
      by simp
    from Cons.IH [OF this Cons.prems(2-)] show ?thesis .
  next
    case False
    note nb = this
    show ?thesis
    proof (cases "bhi \<le> j")
      case True
      with nb Cons.prems show ?thesis by auto
    next
      case False
      define k where "k = (if j = 0 then 0 else j2len (j - 1)) + 1"
      have k: "k \<le> Suc i - alo" "0 < k"
        using Cons.prems(2,3) by (auto simp: k_def Suc_diff_le)
      have nj: "\<forall>x. (nj(j := k)) x \<le> Suc i - alo"
        using k Cons.prems(4) by simp
      show ?thesis
      proof (cases "bs < k")
        case True
        have eq: "row_loop j2len i blo bhi js (nj(j := k), i + 1 - k, j + 1 - k, k) = (nj', bi', bj', bs')"
          using Cons.prems(1) nb False True by (simp add: k_def Let_def)
        have "alo \<le> i + 1 - k" "i + 1 - k + k \<le> Suc i"
          using k Cons.prems(2) by auto
        from Cons.IH [OF eq Cons.prems(2,3) nj this] show ?thesis .
      next
        case nlt: False
        have eq: "row_loop j2len i blo bhi js (nj(j := k), bi, bj, bs) = (nj', bi', bj', bs')"
          using Cons.prems(1) nb False nlt by (simp add: k_def Let_def)
        from Cons.IH [OF eq Cons.prems(2,3) nj Cons.prems(5,6)] show ?thesis .
      qed
    qed
  qed
qed

lemma rows_loop_inv:
  "rows_loop a b2j blo bhi [m..<ahi] (j2len, bi, bj, bs) = (bi', bj', bs') \<Longrightarrow>
   alo \<le> m \<Longrightarrow> \<forall>j. j2len j \<le> m - alo \<Longrightarrow> alo \<le> bi \<Longrightarrow> bi + bs \<le> m \<Longrightarrow>
   alo \<le> bi' \<and> bi' + bs' \<le> max m ahi"
proof (induction "ahi - m" arbitrary: m j2len bi bj bs)
  case 0
  then show ?case by simp
next
  case (Suc d)
  then have m: "m < ahi" and upt: "[m..<ahi] = m # [Suc m..<ahi]"
    by (auto simp: upt_conv_Cons)
  obtain nj ci cj cs where
    row: "row_loop j2len m blo bhi (b2j (a ! m)) (\<lambda>_. 0, bi, bj, bs) = (nj, ci, cj, cs)"
    by (metis prod_cases4)
  have inv: "(\<forall>j. nj j \<le> Suc m - alo) \<and> alo \<le> ci \<and> ci + cs \<le> Suc m"
    using row Suc.prems(2,3) by (rule row_loop_inv) (use Suc.prems in auto)
  have rest: "rows_loop a b2j blo bhi [Suc m..<ahi] (nj, ci, cj, cs) = (bi', bj', bs')"
    using Suc.prems(1) row by (simp add: upt)
  have "d = ahi - Suc m"
    using Suc.hyps(2) by simp
  from Suc.hyps(1) [OF this rest] inv Suc.prems(2)
  have "alo \<le> bi' \<and> bi' + bs' \<le> max (Suc m) ahi"
    by simp
  with m show ?case
    by simp
qed

lemma extend_left_inv:
  "extend_left a b alo blo (bi, bj, bs) = (bi', bj', bs') \<Longrightarrow> alo \<le> bi \<Longrightarrow>
   alo \<le> bi' \<and> bi' + bs' = bi + bs"
proof (induction a b alo blo "(bi, bj, bs)" arbitrary: bi bj bs rule: extend_left.induct)
  case (1 a b alo blo besti bestj bestsize)
  show ?case
  proof (cases "alo < besti \<and> blo < bestj \<and> a ! (besti - 1) = b ! (bestj - 1)")
    case True
    with "1.prems"(1) have "extend_left a b alo blo (besti - 1, bestj - 1, bestsize + 1) = (bi', bj', bs')"
      by simp
    from "1.hyps" [OF True this] True have "alo \<le> bi' \<and> bi' + bs' = besti - 1 + (bestsize + 1)"
      by auto
    with True show ?thesis
      by auto
  next
    case False
    with "1.prems" show ?thesis
      by auto
  qed
qed

lemma extend_right_inv:
  "extend_right a b ahi bhi (bi, bj, bs) = (bi', bj', bs') \<Longrightarrow> bi + bs \<le> max bi ahi \<Longrightarrow>
   bi' = bi \<and> bs \<le> bs' \<and> bi' + bs' \<le> max bi ahi"
proof (induction a b ahi bhi "(bi, bj, bs)" arbitrary: bi bj bs rule: extend_right.induct)
  case (1 a b ahi bhi besti bestj bestsize)
  show ?case
  proof (cases "besti + bestsize < ahi \<and> bestj + bestsize < bhi \<and>
         a ! (besti + bestsize) = b ! (bestj + bestsize)")
    case True
    with "1.prems"(1) have "extend_right a b ahi bhi (besti, bestj, bestsize + 1) = (bi', bj', bs')"
      by simp
    from "1.hyps" [OF True this] True show ?thesis
      by simp
  next
    case False
    with "1.prems" show ?thesis
      by auto
  qed
qed

lemma find_longest_match_bounds:
  assumes "find_longest_match a b b2j alo ahi blo bhi = (i, j, k)" and "k \<noteq> 0"
  shows "alo \<le> i \<and> i + k \<le> ahi"
proof -
  obtain i1 j1 k1 where
    r: "rows_loop a b2j blo bhi [alo..<ahi] (\<lambda>_. 0, alo, blo, 0) = (i1, j1, k1)"
    by (metis prod_cases3)
  obtain i2 j2 k2 where l: "extend_left a b alo blo (i1, j1, k1) = (i2, j2, k2)"
    by (metis prod_cases3)
  have e: "extend_right a b ahi bhi (i2, j2, k2) = (i, j, k)"
    using assms(1) r l by (simp add: find_longest_match_def)
  have 1: "alo \<le> i1 \<and> i1 + k1 \<le> max alo ahi"
    using r by (rule rows_loop_inv) simp_all
  with extend_left_inv [OF l] have 2: "alo \<le> i2 \<and> i2 + k2 \<le> max alo ahi"
    by simp
  then have "i2 + k2 \<le> max i2 ahi"
    by auto
  with extend_right_inv [OF e] have 3: "i = i2 \<and> k2 \<le> k \<and> i + k \<le> max i2 ahi"
    by simp
  with 2 assms(2) show ?thesis
    by auto
qed

text \<open>
  \<^verbatim>\<open>get_matching_blocks\<close>: the loop over the queue of windows still to be matched. The
  head of the list is the entry \<^verbatim>\<open>queue.pop()\<close> takes next.
\<close>

function blocks_loop ::
  "'a list \<Rightarrow> 'a list \<Rightarrow> ('a \<Rightarrow> nat list) \<Rightarrow> (nat \<times> nat \<times> nat \<times> nat) list \<Rightarrow>
   (nat \<times> nat \<times> nat) list \<Rightarrow> (nat \<times> nat \<times> nat) list" where
  "blocks_loop a b b2j [] matching_blocks = matching_blocks"
| "blocks_loop a b b2j ((alo, ahi, blo, bhi) # queue) matching_blocks =
     (case find_longest_match a b b2j alo ahi blo bhi of
        (i, j, k) \<Rightarrow>
          if k \<noteq> 0 then
            blocks_loop a b b2j
              ((if i + k < ahi \<and> j + k < bhi then [(i + k, ahi, j + k, bhi)] else []) @
               (if alo < i \<and> blo < j then [(alo, i, blo, j)] else []) @ queue)
              (matching_blocks @ [(i, j, k)])
          else blocks_loop a b b2j queue matching_blocks)"
  by pat_completeness auto
termination
proof (relation "measure (\<lambda>(a, b, b2j, queue, acc).
          sum_list (map (\<lambda>(alo, ahi, blo, bhi). 2 * (ahi - alo) + 1) queue))", goal_cases)
  case 1
  then show ?case by simp
next
  case 2
  then show ?case
    by (auto dest!: find_longest_match_bounds [OF sym])
next
  case 3
  then show ?case by simp
qed

text \<open>
  \<^verbatim>\<open>ratio()\<close> is \<^verbatim>\<open>2.0 * matches / length\<close>, and 1.0 when both sequences are empty;
  \<^verbatim>\<open>matches\<close> is the sum of the sizes of the matching blocks (sorting the blocks and
  merging adjacent ones, as \<^verbatim>\<open>get_matching_blocks\<close> goes on to do, does not change the
  sum). The quotient is kept as the exact rational.
\<close>

definition sequence_ratio :: "'a list \<Rightarrow> 'a list \<Rightarrow> rat" where
  "sequence_ratio a b =
     (let matches = sum_list (map (\<lambda>(i, j, k). k)
                      (blocks_loop a b (chain_b b) [(0, length a, 0, length b)] []));
          length = length a + length b
      in if length \<noteq> 0 then 2 * of_nat matches / of_nat length else 1)"

text \<open>
  The elements of a Python \<^verbatim>\<open>str\<close> are its code points. A string is kept here as its
  UTF-8 encoding, in which a code point is one byte that is not a continuation byte
  (\<^verbatim>\<open>0x80\<close> to \<^verbatim>\<open>0xBF\<close>) followed by its continuation bytes: \<open>code_points\<close> cuts
  the encoding into the code points, and \<open>ratio\<close> is \<^verbatim>\<open>ratio()\<close> for two strings.
\<close>

definition is_continuation :: "char \<Rightarrow> bool" where
  "is_continuation c = (128 \<le> (of_char c :: nat) \<and> (of_char c :: nat) < 192)"

function code_points :: "string \<Rightarrow> string list" where
  "code_points [] = []"
| "code_points (c # cs) =
     (c # takeWhile is_continuation cs) # code_points (dropWhile is_continuation cs)"
  by pat_completeness auto
termination
  by (relation "measure length") (auto simp: length_dropWhile_le le_imp_less_Suc)

definition ratio :: "string \<Rightarrow> string \<Rightarrow> rat" where
  "ratio a b = sequence_ratio (code_points a) (code_points b)"

subsection \<open>Exceptions\<close>

text \<open>
  A call that raises returns \<open>Inl\<close> of the exception. \<open>TypeError\<close> and
  \<open>AttributeError\<close> are Python's own; \<open>External\<close> is an exception raised inside a
  library or capability that is not part of the repository, with the name of its class;
  \<open>ConfigError\<close> is the error the specification names for an invalid tuning parameter.
\<close>

datatype error = AttributeError | TypeError | ConfigError | External string

subsection \<open>find_similar_files\<close>

text \<open>
  \<^verbatim>\<open>difflib.SequenceMatcher(None, a, b).ratio()\<close> on two attribute values. When one of
  them is \<^verbatim>\<open>None\<close> the call raises \<^verbatim>\<open>TypeError\<close> (\<^verbatim>\<open>len(None)\<close> in
  \<^verbatim>\<open>get_matching_blocks\<close>). When both are \<^verbatim>\<open>None\<close>, neither \<^verbatim>\<open>set_seq1\<close> nor
  \<^verbatim>\<open>set_seq2\<close> gets as far as creating the attribute \<^verbatim>\<open>matching_blocks\<close>, and reading
  it raises \<^verbatim>\<open>AttributeError\<close>.
\<close>

definition SequenceMatcher_ratio :: "string option \<Rightarrow> string option \<Rightarrow> error + rat" where
  "SequenceMatcher_ratio a b =
     (case (a, b) of
        (None, None) \<Rightarrow> Inl AttributeError
      | (Some a', Some b') \<Rightarrow> Inr (ratio a' b')
      | _ \<Rightarrow> Inl TypeError)"

text \<open>
  The two nested loops of \<^verbatim>\<open>find_similar_files\<close>: \<open>similar_inner\<close> is the loop over
  \<^verbatim>\<open>files2\<close> for one \<^verbatim>\<open>file1\<close>, \<open>similar_outer\<close> the loop over \<^verbatim>\<open>files1\<close>;
  the list \<^verbatim>\<open>similar_files\<close> is passed along. The threshold is the literal 0.8: for
  sequences of fewer than 10^15 elements in total, comparing the float quotient with it
  agrees with comparing the exact quotient with 8/10.
\<close>

fun similar_inner ::
  "node_info \<Rightarrow> node_info list \<Rightarrow> (string \<times> string \<times> rat) list \<Rightarrow>
   error + (string \<times> string \<times> rat) list" where
  "similar_inner file1 [] similar_files = Inr similar_files"
| "similar_inner file1 (file2 # files2) similar_files =
     (if fst file1 \<noteq> fst file2 then
        (case SequenceMatcher_ratio (snd (snd (snd file1))) (snd (snd (snd file2))) of
           Inl e \<Rightarrow> Inl e
         | Inr similarity \<Rightarrow>
             similar_inner file1 files2
               (if 8 / 10 < similarity then similar_files @ [(fst file1, fst file2, similarity)]
                else similar_files))
      else similar_inner file1 files2 similar_files)"

fun similar_outer ::
  "node_info list \<Rightarrow> node_info list \<Rightarrow> (string \<times> string \<times> rat) list \<Rightarrow>
   error + (string \<times> string \<times> rat) list" where
  "similar_outer [] files2 similar_files = Inr similar_files"
| "similar_outer (file1 # files1) files2 similar_files =
     (case similar_inner file1 files2 similar_files of
        Inl e \<Rightarrow> Inl e
      | Inr similar_files' \<Rightarrow> similar_outer files1 files2 similar_files')"

definition find_similar_files :: "FileNode \<Rightarrow> FileNode \<Rightarrow> error + (string \<times> string \<times> rat) list" where
  "find_similar_files tree1 tree2 =
     (let files1 = filter (\<lambda>node. \<not> fst (snd node)) (get_node_info tree1);
          files2 = filter (\<lambda>node. \<not> fst (snd node)) (get_node_info tree2)
      in similar_outer files1 files2 [])"

subsection \<open>Nodes of a tree and positions in it\<close>

text \<open>
  The nodes of a tree in the order in which \<^verbatim>\<open>get_node_info\<close> visits them (a node, then
  the nodes below each child in turn), and the tuple it records for a node. A position is
  the list of child indices leading from the root to a node; \<open>update_at\<close> applies a
  change to the node at a position, as a method call on that object would.
\<close>

fun nodes :: "FileNode \<Rightarrow> FileNode list" where
  "nodes (FileNode n d s h cs) = FileNode n d s h cs # concat (map nodes cs)"

definition identity_tuple :: "FileNode \<Rightarrow> node_info" where
  "identity_tuple node = (name node, is_dir node, size_attr node, content_hash node)"

fun node_at :: "nat list \<Rightarrow> FileNode \<Rightarrow> FileNode option" where
  "node_at [] t = Some t"
| "node_at (i # p) t = (if i < length (children t) then node_at p (children t ! i) else None)"

fun update_at :: "nat list \<Rightarrow> (FileNode \<Rightarrow> FileNode) \<Rightarrow> FileNode \<Rightarrow> FileNode option" where
  "update_at [] f t = Some (f t)"
| "update_at (i # p) f (FileNode n d s h cs) =
     (if i < length cs then
        (case update_at p f (cs ! i) of
           None \<Rightarrow> None
         | Some c' \<Rightarrow> Some (FileNode n d s h (cs[i := c'])))
      else None)"

definition file_nodes :: "FileNode \<Rightarrow> FileNode list" where
  "file_nodes tree = filter (\<lambda>node. \<not> is_dir node) (nodes tree)"

subsection \<open>The end-to-end scenario of the specification\<close>

text \<open>
  Tree A is root/[fileX (size 10, hash abc), dirY/[fileZ (size 5, hash def)]]; tree B is
  the same with fileX renamed to fileW. Directories have size 0 and no content hash.
\<close>

definition scenario_A :: FileNode where
  "scenario_A = FileNode ''root'' True 0 None
     [FileNode ''fileX'' False 10 (Some ''abc'') [],
      FileNode ''dirY'' True 0 None [FileNode ''fileZ'' False 5 (Some ''def'') []]]"

definition scenario_B :: FileNode where
  "scenario_B = FileNode ''root'' True 0 None
     [FileNode ''fileW'' False 10 (Some ''abc'') [],
      FileNode ''dirY'' True 0 None [FileNode ''fileZ'' False 5 (Some ''def'') []]]"

section \<open>tree_processor.py and lsh_signature.py\<close>

text \<open>
  \<^verbatim>\<open>process_tree\<close> assigns attributes of the node objects it walks over, so the objects
  live in a heap: a reference is the identity of an object and the heap gives the object
  behind each reference. The class of these objects is not part of the repository; the
  code reads \<^verbatim>\<open>name\<close> and \<^verbatim>\<open>children\<close> (here \<open>node_name\<close> and \<open>node_children\<close>, the
  list of references to the children) and reads or assigns \<^verbatim>\<open>depth\<close>, \<^verbatim>\<open>max_depth\<close>,
  \<^verbatim>\<open>max_branching_factor\<close>, \<^verbatim>\<open>weight\<close> and \<^verbatim>\<open>signature\<close>. An attribute that no one
  has assigned is \<open>None\<close>; reading it raises \<^verbatim>\<open>AttributeError\<close>.
\<close>

type_synonym ref = nat

record ('w, 'm) node =
  node_name :: string
  node_children :: "ref list"
  depth :: "int option"
  max_depth :: "int option"
  max_branching_factor :: "int option"
  weight :: "'w option"
  signature :: "'m option"

type_synonym ('w, 'm) heap = "ref \<Rightarrow> ('w, 'm) node"

text \<open>
  \<^verbatim>\<open>compute_node_signature\<close> (lsh_signature.py). \<^verbatim>\<open>datasketch.MinHash\<close> is a library
  class: its constructor, which may raise, and its method \<^verbatim>\<open>update\<close>, which changes the
  sketch, are parameters. The sketch is created from \<^verbatim>\<open>num_perm\<close>, updated with the name
  of the node and then with the name of each child in order.
\<close>

definition compute_node_signature ::
  "(int \<Rightarrow> error + 'm) \<Rightarrow> ('m \<Rightarrow> string \<Rightarrow> 'm) \<Rightarrow> ('w, 'm) heap \<Rightarrow> ref \<Rightarrow> int \<Rightarrow> error + 'm" where
  "compute_node_signature MinHash update h node num_perm =
     (case MinHash num_perm of
        Inl e \<Rightarrow> Inl e
      | Inr minhash \<Rightarrow>
          Inr (fold (\<lambda>child m. update m (node_name (h child))) (node_children (h node))
                 (update minhash (node_name (h node)))))"

text \<open>
  The first loop of \<^verbatim>\<open>process_tree\<close>. The stack holds pairs (node, parent); the head of
  the list is the entry that \<^verbatim>\<open>stack.pop()\<close> takes next, so appending the children in
  order puts them in front in reverse order. A node object is truthy, so
  \<^verbatim>\<open>if parent:\<close> tests for \<^verbatim>\<open>None\<close>. The loop runs as long as the stack is not empty: the
  result is \<open>None\<close> when it never ends, and otherwise the outcome (the two maxima, or the
  exception raised) together with the heap at that moment, since assignments made before
  an exception stay.
\<close>

partial_function (option) metrics_loop ::
  "('w, 'm) heap \<Rightarrow> (ref \<times> ref option) list \<Rightarrow> int \<Rightarrow> int \<Rightarrow>
   ((error + int \<times> int) \<times> ('w, 'm) heap) option" where
  "metrics_loop h stack max_depth' max_branching_factor' =
     (case stack of
        [] \<Rightarrow> Some (Inr (max_depth', max_branching_factor'), h)
      | (node, parent) # stack' \<Rightarrow>
          (case (case parent of
                   None \<Rightarrow> Inr h
                 | Some p \<Rightarrow>
                     (case depth (h p) of
                        None \<Rightarrow> Inl AttributeError
                      | Some d \<Rightarrow> Inr (h(node := (h node)\<lparr>depth := Some (d + 1)\<rparr>)))) of
             Inl e \<Rightarrow> Some (Inl e, h)
           | Inr h1 \<Rightarrow>
               (case depth (h1 node) of
                  None \<Rightarrow> Some (Inl AttributeError, h1)
                | Some d \<Rightarrow>
                    metrics_loop h1
                      (rev (map (\<lambda>child. (child, Some node)) (node_children (h1 node))) @ stack')
                      (max max_depth' d)
                      (max max_branching_factor' (int (length (node_children (h1 node))))))))"

text \<open>
  The second loop, \<^verbatim>\<open>for node in traverse_tree(root)\<close>, with the generator
  \<^verbatim>\<open>traverse_tree\<close> written into it: the generator pops a node and yields it, the body of
  the loop assigns \<^verbatim>\<open>weight\<close> and then \<^verbatim>\<open>signature\<close>, and on resumption the generator
  pushes the children. \<^verbatim>\<open>calculate_dynamic_weight\<close> comes from a module that is not
  part of the repository: it is a parameter that reads the heap, the node and the root
  and returns a weight or raises. \<open>process_tree\<close> is the whole function; a caller that
  leaves \<^verbatim>\<open>num_perm\<close> out passes 128.
\<close>

partial_function (option) annotate_loop ::
  "(('w, 'm) heap \<Rightarrow> ref \<Rightarrow> ref \<Rightarrow> error + 'w) \<Rightarrow> (int \<Rightarrow> error + 'm) \<Rightarrow> ('m \<Rightarrow> string \<Rightarrow> 'm) \<Rightarrow>
   ('w, 'm) heap \<Rightarrow> ref \<Rightarrow> int \<Rightarrow> ref list \<Rightarrow> ((error + unit) \<times> ('w, 'm) heap) option" where
  "annotate_loop calculate_dynamic_weight MinHash update h root' num_perm stack =
     (case stack of
        [] \<Rightarrow> Some (Inr (), h)
      | node # stack' \<Rightarrow>
          (case calculate_dynamic_weight h node root' of
             Inl e \<Rightarrow> Some (Inl e, h)
           | Inr w \<Rightarrow>
               (let h1 = h(node := (h node)\<lparr>weight := Some w\<rparr>) in
                case compute_node_signature MinHash update h1 node num_perm of
                  Inl e \<Rightarrow> Some (Inl e, h1)
                | Inr s \<Rightarrow>
                    (let h2 = h1(node := (h1 node)\<lparr>signature := Some s\<rparr>) in
                     annotate_loop calculate_dynamic_weight MinHash update h2 root' num_perm
                       (rev (node_children (h2 node)) @ stack')))))"

definition process_tree ::
  "(('w, 'm) heap \<Rightarrow> ref \<Rightarrow> ref \<Rightarrow> error + 'w) \<Rightarrow> (int \<Rightarrow> error + 'm) \<Rightarrow> ('m \<Rightarrow> string \<Rightarrow> 'm) \<Rightarrow>
   ('w, 'm) heap \<Rightarrow> ref \<Rightarrow> int \<Rightarrow> ((error + unit) \<times> ('w, 'm) heap) option" where
  "process_tree calculate_dynamic_weight MinHash update h root' num_perm =
     (case metrics_loop h [(root', None)] 0 0 of
        None \<Rightarrow> None
      | Some (Inl e, h1) \<Rightarrow> Some (Inl e, h1)
      | Some (Inr (max_depth', max_branching_factor'), h1) \<Rightarrow>
          (let h2 = h1(root' := (h1 root')\<lparr>max_depth := Some max_depth',
                                         max_branching_factor := Some max_branching_factor'\<rparr>)
           in annotate_loop calculate_dynamic_weight MinHash update h2 root' num_perm [root']))"

subsection \<open>Well-formed trees in the heap\<close>

text \<open>
  A shape is a finite tree of references. The heap represents a shape when the children
  of each object are the roots of the subshapes, in order; the tree is well-formed
  (acyclic, every node under one parent) when moreover no reference occurs twice in the
  shape. \<open>refs\<close> lists the nodes of a shape and \<open>edges\<close> its (parent, child) pairs.
\<close>

datatype shape = Shape (root_of: ref) (subshapes: "shape list")

fun refs :: "shape \<Rightarrow> ref list" where
  "refs (Shape r ts) = r # concat (map refs ts)"

fun edges :: "shape \<Rightarrow> (ref \<times> ref) list" where
  "edges (Shape r ts) = map (\<lambda>t. (r, root_of t)) ts @ concat (map edges ts)"

fun repr :: "('w, 'm) heap \<Rightarrow> shape \<Rightarrow> bool" where
  "repr h (Shape r ts) = (node_children (h r) = map root_of ts \<and> list_all (repr h) ts)"

text \<open>
  What the first loop keeps true, for a stack whose entries are the roots of the shapes
  \<open>ents\<close> with their parents: \<open>parent_ok\<close> before an entry is popped, \<open>entry_ok\<close> and
  \<open>metrics_post\<close> once the loop has ended.
\<close>

definition all_refs :: "(shape \<times> ref option) list \<Rightarrow> ref list" where
  "all_refs ents = concat (map (\<lambda>e. refs (fst e)) ents)"

definition stack_of :: "(shape \<times> ref option) list \<Rightarrow> (ref \<times> ref option) list" where
  "stack_of ents = map (\<lambda>e. (root_of (fst e), snd e)) ents"

definition parent_ok :: "('w, 'm) heap \<Rightarrow> ref set \<Rightarrow> shape \<times> ref option \<Rightarrow> bool" where
  "parent_ok h R e =
     (case snd e of
        None \<Rightarrow> depth (h (root_of (fst e))) \<noteq> None
      | Some q \<Rightarrow> depth (h q) \<noteq> None \<and> q \<notin> R)"

definition edge_ok :: "('w, 'm) heap \<Rightarrow> ref \<times> ref \<Rightarrow> bool" where
  "edge_ok h e = (\<exists>d. depth (h (fst e)) = Some d \<and> depth (h (snd e)) = Some (d + 1))"

definition entry_ok :: "('w, 'm) heap \<Rightarrow> ('w, 'm) heap \<Rightarrow> shape \<times> ref option \<Rightarrow> bool" where
  "entry_ok h h' e =
     ((case snd e of
         None \<Rightarrow> depth (h' (root_of (fst e))) = depth (h (root_of (fst e)))
       | Some q \<Rightarrow> edge_ok h' (q, root_of (fst e)))
      \<and> list_all (edge_ok h') (edges (fst e)))"

definition metrics_post ::
  "('w, 'm) heap \<Rightarrow> (shape \<times> ref option) list \<Rightarrow> int \<Rightarrow> int \<Rightarrow> int \<Rightarrow> int \<Rightarrow> ('w, 'm) heap \<Rightarrow> bool" where
  "metrics_post h ents md mb md' mb' h' =
     ((\<forall>r. r \<notin> set (all_refs ents) \<longrightarrow> h' r = h r) \<and>
      (\<forall>r. h' r = (h r)\<lparr>depth := depth (h' r)\<rparr>) \<and>
      (\<forall>r \<in> set (all_refs ents). depth (h' r) \<noteq> None) \<and>
      list_all (entry_ok h h') ents \<and>
      md' = Max (insert md ((\<lambda>r. the (depth (h' r))) ` set (all_refs ents))) \<and>
      mb' = Max (insert mb ((\<lambda>r. int (length (node_children (h r)))) ` set (all_refs ents))))"

subsection \<open>Example heaps\<close>

text \<open>
  \<open>heap0\<close> holds the tree root/[a/[c], b] at the references 0, 1, 3 and 2, with the
  depth of the root set to 0 and no other annotation. \<open>heap_scanned\<close> holds the same
  tree as the repository builds it: no object has a depth (\<^verbatim>\<open>FileNode.__init__\<close> sets
  \<^verbatim>\<open>name\<close>, \<^verbatim>\<open>is_dir\<close>, \<^verbatim>\<open>children\<close>, \<^verbatim>\<open>content_hash\<close> and \<^verbatim>\<open>size\<close>, and nothing
  else in the repository assigns a depth). In \<open>heap_unset\<close> every object is a node
  without children and without a depth. \<open>process_tree0\<close> runs \<open>process_tree\<close> with a weight capability that returns 1,
  a sketch that is the list of the strings it was updated with, and \<^verbatim>\<open>num_perm\<close> 128.
\<close>

definition node0 :: "(nat, string list) node" where
  "node0 = \<lparr>node_name = ''n'', node_children = [], depth = None, max_depth = None,
            max_branching_factor = None, weight = None, signature = None\<rparr>"

definition heap0 :: "(nat, string list) heap" where
  "heap0 = (\<lambda>_. node0)
     (0 := node0\<lparr>node_name := ''root'', node_children := [1, 2], depth := Some 0\<rparr>,
      1 := node0\<lparr>node_name := ''a'', node_children := [3]\<rparr>,
      2 := node0\<lparr>node_name := ''b''\<rparr>,
      3 := node0\<lparr>node_name := ''c''\<rparr>)"

definition shape0 :: shape where
  "shape0 = Shape 0 [Shape 1 [Shape 3 []], Shape 2 []]"

definition heap_scanned :: "(nat, string list) heap" where
  "heap_scanned = heap0(0 := (heap0 0)\<lparr>depth := None\<rparr>)"

definition heap_unset :: "(nat, string list) heap" where
  "heap_unset = (\<lambda>_. node0)"

definition process_tree0 ::
  "(nat, string list) heap \<Rightarrow> ref \<Rightarrow> ((error + unit) \<times> (nat, string list) heap) option" where
  "process_tree0 h root' = process_tree (\<lambda>h n r. Inr 1) (\<lambda>k. Inr []) (\<lambda>m s. s # m) h root' 128"

section \<open>Properties of compare_trees\<close>

lemma get_node_info_not_Nil: "get_node_info t \<noteq> []"
  by (cases t) simp

text \<open>
  C3. For every pair of trees, the similarity returned by \<open>compare_trees\<close> is the
  number of elements of the intersection of the two flattened sets divided by the number
  of elements of their union, it is 0 when the union is empty, and it lies between 0
  and 1.
\<close>

theorem compare_trees_jaccard:
  "fst (compare_trees a b) =
     (if set (get_node_info a) \<union> set (get_node_info b) = {} then 0
      else of_nat (card (set (get_node_info a) \<inter> set (get_node_info b))) /
           of_nat (card (set (get_node_info a) \<union> set (get_node_info b))))
   \<and> 0 \<le> fst (compare_trees a b) \<and> fst (compare_trees a b) \<le> 1"
proof -
  let ?I = "set (get_node_info a) \<inter> set (get_node_info b)"
  let ?U = "set (get_node_info a) \<union> set (get_node_info b)"
  have eq: "fst (compare_trees a b) =
      (if ?U = {} then 0 else of_nat (card ?I) / of_nat (card ?U))"
    by (simp add: compare_trees_def Let_def)
  have "card ?I \<le> card ?U"
    by (rule card_mono) auto
  then have le: "(of_nat (card ?I) :: rat) \<le> of_nat (card ?U)"
    by simp
  have pos: "?U \<noteq> {} \<Longrightarrow> (0::rat) < of_nat (card ?U)"
    by (simp add: card_gt_0_iff)
  have "0 \<le> fst (compare_trees a b)"
    unfolding eq by simp
  moreover have "fst (compare_trees a b) \<le> 1"
    unfolding eq using le pos by (simp add: divide_le_eq_1)
  ultimately show ?thesis
    using eq by blast
qed

lemma identity_tuple_FileNode [simp]: "identity_tuple (FileNode n d s h cs) = (n, d, s, h)"
  by (simp add: identity_tuple_def)

lemma get_node_info_nodes: "get_node_info t = map identity_tuple (nodes t)"
proof (induction t)
  case (FileNode n d s h cs)
  then have "concat (map get_node_info cs) = concat (map (map identity_tuple \<circ> nodes) cs)"
    by (induction cs) auto
  then show ?case
    by (simp add: map_concat)
qed

lemma differences_split:
  "snd (compare_trees a b) =
     image_mset (diff_entry (name a)) (mset_set (set (get_node_info a) - set (get_node_info b))) +
     image_mset (diff_entry (name b)) (mset_set (set (get_node_info b) - set (get_node_info a)))"
proof -
  let ?A = "set (get_node_info a)" and ?B = "set (get_node_info b)"
  let ?f = "\<lambda>item. if item \<in> ?A then diff_entry (name a) item else diff_entry (name b) item"
  have U: "(?A \<union> ?B) - (?A \<inter> ?B) = (?A - ?B) \<union> (?B - ?A)"
    by blast
  have "mset_set ((?A - ?B) \<union> (?B - ?A)) = mset_set (?A - ?B) + mset_set (?B - ?A)"
    by (rule mset_set_Union) auto
  then have "image_mset ?f (mset_set ((?A \<union> ?B) - (?A \<inter> ?B))) =
      image_mset ?f (mset_set (?A - ?B)) + image_mset ?f (mset_set (?B - ?A))"
    by (simp add: U)
  moreover have "image_mset ?f (mset_set (?A - ?B)) = image_mset (diff_entry (name a)) (mset_set (?A - ?B))"
    by (rule image_mset_cong) simp
  moreover have "image_mset ?f (mset_set (?B - ?A)) = image_mset (diff_entry (name b)) (mset_set (?B - ?A))"
    by (rule image_mset_cong) simp
  ultimately show ?thesis
    by (simp add: compare_trees_def Let_def)
qed

text \<open>
  C10. Every entry of the differences returned by \<open>compare_trees\<close> is the string
  "Only in ", the name of the root of the tree that alone holds the element, ": " and the
  name recorded in the element. When both roots have the same name every entry carries
  that one label, whichever tree the element came from, and exchanging the two trees
  gives the same differences.
\<close>

theorem differences_format:
  "snd (compare_trees a b) =
     image_mset (\<lambda>item. ''Only in '' @ name a @ '': '' @ fst item)
        (mset_set (set (get_node_info a) - set (get_node_info b))) +
     image_mset (\<lambda>item. ''Only in '' @ name b @ '': '' @ fst item)
        (mset_set (set (get_node_info b) - set (get_node_info a)))
   \<and> (name a = name b \<longrightarrow>
        snd (compare_trees a b) =
          image_mset (\<lambda>item. ''Only in '' @ name a @ '': '' @ fst item)
            (mset_set ((set (get_node_info a) \<union> set (get_node_info b)) -
                       (set (get_node_info a) \<inter> set (get_node_info b))))
        \<and> snd (compare_trees a b) = snd (compare_trees b a))"
proof -
  let ?A = "set (get_node_info a)" and ?B = "set (get_node_info b)"
  have fmt: "diff_entry = (\<lambda>owner item. ''Only in '' @ owner @ '': '' @ fst item)"
    by (intro ext) (simp add: diff_entry_def)
  have 1: "snd (compare_trees a b) =
     image_mset (diff_entry (name a)) (mset_set (?A - ?B)) +
     image_mset (diff_entry (name b)) (mset_set (?B - ?A))"
    by (rule differences_split)
  have 2: "snd (compare_trees b a) =
     image_mset (diff_entry (name b)) (mset_set (?B - ?A)) +
     image_mset (diff_entry (name a)) (mset_set (?A - ?B))"
    by (rule differences_split)
  have U: "(?A \<union> ?B) - (?A \<inter> ?B) = (?A - ?B) \<union> (?B - ?A)"
    by blast
  have 3: "mset_set ((?A \<union> ?B) - (?A \<inter> ?B)) = mset_set (?A - ?B) + mset_set (?B - ?A)"
    unfolding U by (rule mset_set_Union) auto
  show ?thesis
    using 1 2 3 unfolding fmt by (simp add: add.commute)
qed


theorem differences_format_witness:
  "name (FileNode ''r'' True 0 None [FileNode ''x'' False 1 (Some ''abc'') []]) =
   name (FileNode ''r'' True 0 None [FileNode ''y'' False 1 (Some ''abc'') []])
   \<and> snd (compare_trees (FileNode ''r'' True 0 None [FileNode ''x'' False 1 (Some ''abc'') []])
                         (FileNode ''r'' True 0 None [FileNode ''y'' False 1 (Some ''abc'') []])) =
     snd (compare_trees (FileNode ''r'' True 0 None [FileNode ''y'' False 1 (Some ''abc'') []])
                         (FileNode ''r'' True 0 None [FileNode ''x'' False 1 (Some ''abc'') []]))"
proof -
  let ?a = "FileNode ''r'' True 0 None [FileNode ''x'' False 1 (Some ''abc'') []]"
  let ?b = "FileNode ''r'' True 0 None [FileNode ''y'' False 1 (Some ''abc'') []]"
  have n: "name ?a = name ?b"
    by simp
  with differences_format [of ?a ?b]
  have "snd (compare_trees ?a ?b) = snd (compare_trees ?b ?a)"
    by blast
  with n show ?thesis
    by blast
qed

lemma name_update_at:
  "update_at p f t = Some t' \<Longrightarrow> (\<And>x. name (f x) = name x) \<Longrightarrow> name t' = name t"
  by (cases p; cases t) (auto split: if_splits option.splits)

lemma set_concat_update:
  "i < length cs \<Longrightarrow> set (g c') = set (g (cs ! i)) \<union> X \<Longrightarrow>
   (\<Union>x \<in> set (cs[i := c']). set (g x)) = (\<Union>x \<in> set cs. set (g x)) \<union> X"
proof (induction cs arbitrary: i)
  case Nil
  then show ?case by simp
next
  case (Cons a cs)
  then show ?case
    by (cases i) auto
qed

lemma info_update_at_add_child:
  "update_at p (add_child c) t = Some t' \<Longrightarrow>
   set (get_node_info t') = set (get_node_info t) \<union> set (get_node_info c)"
proof (induction p arbitrary: t t')
  case Nil
  then show ?case
    by (cases t) auto
next
  case (Cons i p)
  obtain n d s h cs where t: "t = FileNode n d s h cs"
    by (cases t)
  from Cons.prems t obtain c' where
    i: "i < length cs" and c': "update_at p (add_child c) (cs ! i) = Some c'"
    and t': "t' = FileNode n d s h (cs[i := c'])"
    by (auto split: if_splits option.splits)
  have "set (get_node_info c') = set (get_node_info (cs ! i)) \<union> set (get_node_info c)"
    by (rule Cons.IH [OF c'])
  with i have "(\<Union>x \<in> set (cs[i := c']). set (get_node_info x)) =
      (\<Union>x \<in> set cs. set (get_node_info x)) \<union> set (get_node_info c)"
    by (rule set_concat_update)
  then show ?case
    by (simp add: t t')
qed

lemma compare_trees_cong:
  "set (get_node_info a') = set (get_node_info a) \<Longrightarrow> name a' = name a \<Longrightarrow>
   compare_trees a' b = compare_trees a b \<and> compare_trees b a' = compare_trees b a"
  by (simp add: compare_trees_def Let_def cong: if_cong)

text \<open>
  C9. Adding to a tree (with \<open>add_child\<close>, at any node of it) one more node without
  children whose tuple (name, is_dir, size, content_hash) already occurs in that tree
  changes neither the similarity nor the differences that \<open>compare_trees\<close> returns,
  whether the tree is the first or the second argument.
\<close>

theorem compare_trees_set_semantics:
  assumes "update_at p (add_child c) t = Some t'"
    and "children c = []"
    and "(name c, is_dir c, size_attr c, content_hash c) \<in> set (get_node_info t)"
  shows "compare_trees t' b = compare_trees t b \<and> compare_trees b t' = compare_trees b t"
proof -
  have "get_node_info c = [(name c, is_dir c, size_attr c, content_hash c)]"
    using assms(2) by (cases c) simp
  with assms(3) have "set (get_node_info c) \<subseteq> set (get_node_info t)"
    by simp
  with info_update_at_add_child [OF assms(1)]
  have "set (get_node_info t') = set (get_node_info t)"
    by blast
  moreover have "name t' = name t"
    using assms(1)
  proof (rule name_update_at)
    fix x show "name (add_child c x) = name x"
      by (cases x) simp
  qed
  ultimately show ?thesis
    by (rule compare_trees_cong)
qed

theorem compare_trees_set_semantics_witness:
  "compare_trees
     (FileNode ''r'' True 0 None
        [FileNode ''d'' True 0 None
           [FileNode ''x'' False 1 (Some ''abc'') [], FileNode ''x'' False 1 (Some ''abc'') []]])
     (FileNode ''q'' True 0 None [])
   = compare_trees
     (FileNode ''r'' True 0 None [FileNode ''d'' True 0 None [FileNode ''x'' False 1 (Some ''abc'') []]])
     (FileNode ''q'' True 0 None [])
   \<and> compare_trees
     (FileNode ''q'' True 0 None [])
     (FileNode ''r'' True 0 None
        [FileNode ''d'' True 0 None
           [FileNode ''x'' False 1 (Some ''abc'') [], FileNode ''x'' False 1 (Some ''abc'') []]])
   = compare_trees
     (FileNode ''q'' True 0 None [])
     (FileNode ''r'' True 0 None [FileNode ''d'' True 0 None [FileNode ''x'' False 1 (Some ''abc'') []]])"
  using compare_trees_set_semantics
    [of "[0]" "FileNode ''x'' False 1 (Some ''abc'') []"
        "FileNode ''r'' True 0 None [FileNode ''d'' True 0 None [FileNode ''x'' False 1 (Some ''abc'') []]]"
        "FileNode ''r'' True 0 None
          [FileNode ''d'' True 0 None
            [FileNode ''x'' False 1 (Some ''abc'') [], FileNode ''x'' False 1 (Some ''abc'') []]]"
        "FileNode ''q'' True 0 None []"]
  by simp

section \<open>Node identity in compare_trees\<close>

text \<open>
  C2, as stated, fails. The fourth component of the tuple that \<open>get_node_info\<close>
  records is the attribute \<open>content_hash\<close> of the node, not the fingerprint computed by
  \<open>calculate_hash\<close>. Two directories named d of size 0 with different files below them
  give the same element, which is common to the two flattened sets; and two files with the
  same name, size and fingerprint (the empty string) are different elements when one has
  \<open>content_hash\<close> unset and the other has it set to the empty string.
\<close>

theorem directory_identity_counterexample:
  "hd (get_node_info (FileNode ''d'' True 0 None [FileNode ''x'' False 1 (Some ''abc'') []])) =
   hd (get_node_info (FileNode ''d'' True 0 None [FileNode ''y'' False 2 (Some ''def'') []]))
   \<and> children (FileNode ''d'' True 0 None [FileNode ''x'' False 1 (Some ''abc'') []]) \<noteq>
     children (FileNode ''d'' True 0 None [FileNode ''y'' False 2 (Some ''def'') []])
   \<and> (''d'', True, 0, None) \<in>
       set (get_node_info (FileNode ''root'' True 0 None
              [FileNode ''d'' True 0 None [FileNode ''x'' False 1 (Some ''abc'') []]])) \<inter>
       set (get_node_info (FileNode ''root'' True 0 None
              [FileNode ''d'' True 0 None [FileNode ''y'' False 2 (Some ''def'') []]]))
   \<and> calculate_hash (FileNode ''f'' False 0 None []) =
     calculate_hash (FileNode ''f'' False 0 (Some '''') [])
   \<and> hd (get_node_info (FileNode ''f'' False 0 None [])) \<noteq>
     hd (get_node_info (FileNode ''f'' False 0 (Some '''') []))"
  by (simp add: or_empty_def)

text \<open>
  C2, amended. The flattened set of a tree holds, for each node of the tree, the tuple
  (name, is_dir, size, content_hash) of the attributes stored in that node. Two nodes give
  the same element iff these four attributes agree; the children of a node, and so the
  fingerprint of a directory, play no part: two directories with the same name, size and
  stored content_hash are the same element whatever they contain.
\<close>

theorem compare_identity_stored_tuple:
  "set (get_node_info t) =
     (\<lambda>node. (name node, is_dir node, size_attr node, content_hash node)) ` set (nodes t)
   \<and> (hd (get_node_info n1) = hd (get_node_info n2) \<longleftrightarrow>
        name n1 = name n2 \<and> is_dir n1 = is_dir n2 \<and> size_attr n1 = size_attr n2 \<and>
        content_hash n1 = content_hash n2)
   \<and> hd (get_node_info (FileNode n True s h cs1)) = hd (get_node_info (FileNode n True s h cs2))"
proof -
  have "set (get_node_info t) = identity_tuple ` set (nodes t)"
    by (simp add: get_node_info_nodes)
  also have "identity_tuple = (\<lambda>node. (name node, is_dir node, size_attr node, content_hash node))"
    by (intro ext) (simp add: identity_tuple_def)
  finally have "set (get_node_info t) =
     (\<lambda>node. (name node, is_dir node, size_attr node, content_hash node)) ` set (nodes t)" .
  moreover have "hd (get_node_info n1) = hd (get_node_info n2) \<longleftrightarrow>
        name n1 = name n2 \<and> is_dir n1 = is_dir n2 \<and> size_attr n1 = size_attr n2 \<and>
        content_hash n1 = content_hash n2"
    by (cases n1; cases n2) simp
  ultimately show ?thesis
    by simp
qed

section \<open>Fingerprints\<close>

lemma concat_map_update:
  "i < length cs \<Longrightarrow> g c' = g (cs ! i) \<Longrightarrow> map g (cs[i := c']) = map g cs"
  by (simp add: map_update list_update_same_conv)

lemma calculate_hash_update_at:
  "node_at p t = Some f \<Longrightarrow> update_at p (\<lambda>_. g) t = Some t' \<Longrightarrow>
   calculate_hash g = calculate_hash f \<Longrightarrow> calculate_hash t' = calculate_hash t"
proof (induction p arbitrary: t t')
  case Nil
  then show ?case by simp
next
  case (Cons i p)
  obtain n d s h cs where t: "t = FileNode n d s h cs"
    by (cases t)
  from Cons.prems(2) t obtain c' where
    i: "i < length cs" and c': "update_at p (\<lambda>_. g) (cs ! i) = Some c'"
    and t': "t' = FileNode n d s h (cs[i := c'])"
    by (auto split: if_splits option.splits)
  from Cons.prems(1) t i have "node_at p (cs ! i) = Some f"
    by simp
  then have "calculate_hash c' = calculate_hash (cs ! i)"
    using c' Cons.prems(3) by (rule Cons.IH)
  with i have "map calculate_hash (cs[i := c']) = map calculate_hash cs"
    by (rule concat_map_update)
  then show ?case
    by (simp add: t t')
qed

text \<open>
  C8. For a file node whose \<open>content_hash\<close> is unset, \<open>calculate_hash\<close> returns the
  empty string. A directory holding the file digests the concatenation of the other
  children's fingerprints with the empty string in the file's place, and the fingerprint
  of every tree that has the file at some position is the one it has with any node of
  empty fingerprint at that position.
\<close>

theorem unset_content_hash_is_empty:
  assumes "\<not> is_dir f" and "content_hash f = None"
  shows "calculate_hash f = ''''
    \<and> calculate_hash (FileNode n True s h (xs @ f # ys)) =
        md5_hexdigest (concat (map calculate_hash xs) @ '''' @ concat (map calculate_hash ys))
    \<and> (node_at p t = Some f \<and> calculate_hash g = '''' \<and> update_at p (\<lambda>_. g) t = Some t' \<longrightarrow>
         calculate_hash t' = calculate_hash t)"
proof -
  have f: "calculate_hash f = ''''"
    using assms by (cases f) (simp add: or_empty_def)
  then have "calculate_hash (FileNode n True s h (xs @ f # ys)) =
        md5_hexdigest (concat (map calculate_hash xs) @ '''' @ concat (map calculate_hash ys))"
    by simp
  moreover have "calculate_hash t' = calculate_hash t"
    if "node_at p t = Some f" "calculate_hash g = ''''" "update_at p (\<lambda>_. g) t = Some t'"
    using that f calculate_hash_update_at [of p t f g t'] by simp
  ultimately show ?thesis
    using f by blast
qed

theorem unset_content_hash_is_empty_witness:
  "\<not> is_dir (FileNode ''f'' False 3 None []) \<and> content_hash (FileNode ''f'' False 3 None []) = None
   \<and> calculate_hash (FileNode ''f'' False 3 None []) = ''''
   \<and> calculate_hash (FileNode ''d'' True 0 None
         [FileNode ''a'' False 1 (Some ''abc'') [], FileNode ''f'' False 3 None [],
          FileNode ''b'' False 2 (Some ''def'') []]) = md5_hexdigest ''abcdef''
   \<and> calculate_hash (FileNode ''r'' True 0 None
         [FileNode ''d'' True 0 None [FileNode ''g'' False 3 (Some '''') []]]) =
     calculate_hash (FileNode ''r'' True 0 None
         [FileNode ''d'' True 0 None [FileNode ''f'' False 3 None []]])"
  using unset_content_hash_is_empty
    [of "FileNode ''f'' False 3 None []" "''d''" 0 None
        "[FileNode ''a'' False 1 (Some ''abc'') []]" "[FileNode ''b'' False 2 (Some ''def'') []]"
        "[0, 0]"
        "FileNode ''r'' True 0 None [FileNode ''d'' True 0 None [FileNode ''f'' False 3 None []]]"
        "FileNode ''g'' False 3 (Some '''') []"
        "FileNode ''r'' True 0 None [FileNode ''d'' True 0 None [FileNode ''g'' False 3 (Some '''') []]]"]
  by (simp add: or_empty_def)

text \<open>
  C6, as stated, fails. A file with \<open>content_hash\<close> unset has the fingerprint '' and a
  file with \<open>content_hash\<close> abc the fingerprint abc: the two fingerprints are unequal,
  and the directory holding the two files has the same fingerprint in either order,
  because the concatenation that is digested is abc both times.
\<close>

theorem directory_hash_swap_counterexample:
  "calculate_hash (FileNode ''a'' False 0 None []) \<noteq> calculate_hash (FileNode ''b'' False 3 (Some ''abc'') [])
   \<and> calculate_hash (FileNode ''d'' True 0 None
         [FileNode ''b'' False 3 (Some ''abc'') [], FileNode ''a'' False 0 None []]) =
     calculate_hash (FileNode ''d'' True 0 None
         [FileNode ''a'' False 0 None [], FileNode ''b'' False 3 (Some ''abc'') []])"
  by (simp add: or_empty_def)

lemma concat_swap_neq:
  fixes xs :: "'a list list"
  assumes "i < j" and "j < length xs"
    and "xs ! i \<noteq> xs ! j" and "length (xs ! i) = length (xs ! j)"
  shows "concat (xs[i := xs ! j, j := xs ! i]) \<noteq> concat xs"
proof
  assume eq: "concat (xs[i := xs ! j, j := xs ! i]) = concat xs"
  from assms have i: "i < length xs"
    by simp
  have 1: "xs = take i xs @ xs ! i # drop (Suc i) xs"
    using i by (simp add: id_take_nth_drop)
  have "xs[i := xs ! j, j := xs ! i] = (xs[j := xs ! i])[i := xs ! j]"
    using assms(1) by (simp add: list_update_swap)
  also have "\<dots> = take i (xs[j := xs ! i]) @ xs ! j # drop (Suc i) (xs[j := xs ! i])"
    using i by (simp add: upd_conv_take_nth_drop)
  also have "take i (xs[j := xs ! i]) = take i xs"
    using assms(1) by simp
  finally have 2: "xs[i := xs ! j, j := xs ! i] =
      take i xs @ xs ! j # drop (Suc i) (xs[j := xs ! i])" .
  have "concat (take i xs) @ xs ! j @ concat (drop (Suc i) (xs[j := xs ! i])) =
        concat (take i xs @ xs ! j # drop (Suc i) (xs[j := xs ! i]))"
    by simp
  also have "\<dots> = concat xs"
    using eq 2 by simp
  also have "\<dots> = concat (take i xs @ xs ! i # drop (Suc i) xs)"
    using 1 by simp
  also have "\<dots> = concat (take i xs) @ xs ! i @ concat (drop (Suc i) xs)"
    by simp
  finally have "xs ! j @ concat (drop (Suc i) (xs[j := xs ! i])) =
      xs ! i @ concat (drop (Suc i) xs)"
    by simp
  with assms(4) have "xs ! j = xs ! i"
    by simp
  with assms(3) show False
    by simp
qed

text \<open>
  C6, amended. The fingerprint of a directory is the MD5 digest of the concatenation, in
  child order, of the fingerprints of its children, so it is a function of the ordered
  sequence of child fingerprints. Exchanging two children whose fingerprints are unequal
  and of the same length changes the string that is digested (and so the fingerprint,
  unless MD5 collides on the two strings).
\<close>

theorem directory_hash_order_sensitive:
  assumes "i < j" and "j < length cs"
    and "calculate_hash (cs ! i) \<noteq> calculate_hash (cs ! j)"
    and "length (calculate_hash (cs ! i)) = length (calculate_hash (cs ! j))"
  shows "calculate_hash (FileNode n True s h cs) = md5_hexdigest (concat (map calculate_hash cs))
    \<and> calculate_hash (FileNode n True s h (cs[i := cs ! j, j := cs ! i])) =
        md5_hexdigest (concat (map calculate_hash (cs[i := cs ! j, j := cs ! i])))
    \<and> concat (map calculate_hash (cs[i := cs ! j, j := cs ! i])) \<noteq> concat (map calculate_hash cs)"
proof -
  let ?xs = "map calculate_hash cs"
  from assms have i: "i < length cs"
    by simp
  have "map calculate_hash (cs[i := cs ! j, j := cs ! i]) = ?xs[i := ?xs ! j, j := ?xs ! i]"
    using i assms(2) by (simp add: map_update)
  moreover have "concat (?xs[i := ?xs ! j, j := ?xs ! i]) \<noteq> concat ?xs"
    using assms i by (intro concat_swap_neq) simp_all
  ultimately show ?thesis
    by simp
qed

theorem directory_hash_order_sensitive_witness:
  "(0::nat) < 1 \<and> 1 < length [FileNode ''a'' False 3 (Some ''abc'') [], FileNode ''b'' False 3 (Some ''def'') []]
   \<and> calculate_hash (FileNode ''a'' False 3 (Some ''abc'') []) \<noteq>
     calculate_hash (FileNode ''b'' False 3 (Some ''def'') [])
   \<and> length (calculate_hash (FileNode ''a'' False 3 (Some ''abc'') [])) =
     length (calculate_hash (FileNode ''b'' False 3 (Some ''def'') []))
   \<and> calculate_hash (FileNode ''d'' True 0 None
         [FileNode ''a'' False 3 (Some ''abc'') [], FileNode ''b'' False 3 (Some ''def'') []]) =
       md5_hexdigest ''abcdef''
   \<and> calculate_hash (FileNode ''d'' True 0 None
         [FileNode ''b'' False 3 (Some ''def'') [], FileNode ''a'' False 3 (Some ''abc'') []]) =
       md5_hexdigest ''defabc''
   \<and> ''defabc'' \<noteq> ''abcdef''"
  using directory_hash_order_sensitive
    [of 0 1 "[FileNode ''a'' False 3 (Some ''abc'') [], FileNode ''b'' False 3 (Some ''def'') []]"
        "''d''" 0 None]
  by (simp add: or_empty_def)

section \<open>Properties of find_similar_files\<close>

lemma files_of_info:
  "filter (\<lambda>node. \<not> fst (snd node)) (get_node_info t) = map identity_tuple (file_nodes t)"
  by (simp add: get_node_info_nodes file_nodes_def filter_map comp_def identity_tuple_def)

lemma SequenceMatcher_ratio_files:
  assumes "\<not> is_dir x" "content_hash x \<noteq> None" "\<not> is_dir y" "content_hash y \<noteq> None"
  shows "SequenceMatcher_ratio (snd (snd (snd (identity_tuple x)))) (snd (snd (snd (identity_tuple y)))) =
         Inr (ratio (calculate_hash x) (calculate_hash y))"
  using assms by (cases x; cases y) (auto simp: SequenceMatcher_ratio_def or_empty_def)

lemma similar_inner_eq:
  assumes "\<not> is_dir x" "content_hash x \<noteq> None"
    and "\<forall>y \<in> set ys. \<not> is_dir y \<and> content_hash y \<noteq> None"
  shows "similar_inner (identity_tuple x) (map identity_tuple ys) acc =
     Inr (acc @ [(name x, name y, ratio (calculate_hash x) (calculate_hash y)).
                   y \<leftarrow> ys, name x \<noteq> name y,
                   8 / 10 < ratio (calculate_hash x) (calculate_hash y)])"
  using assms(3)
proof (induction ys arbitrary: acc)
  case Nil
  then show ?case by simp
next
  case (Cons y ys)
  then have y: "\<not> is_dir y" "content_hash y \<noteq> None"
    and ys: "\<forall>y \<in> set ys. \<not> is_dir y \<and> content_hash y \<noteq> None"
    by simp_all
  have n: "fst (identity_tuple x) = name x" "fst (identity_tuple y) = name y"
    by (simp_all add: identity_tuple_def)
  show ?case
    by (simp add: n SequenceMatcher_ratio_files [OF assms(1,2) y] Cons.IH [OF ys])
qed

lemma similar_outer_eq:
  assumes "\<forall>y \<in> set ys. \<not> is_dir y \<and> content_hash y \<noteq> None"
    and "\<forall>x \<in> set xs. \<not> is_dir x \<and> content_hash x \<noteq> None"
  shows "similar_outer (map identity_tuple xs) (map identity_tuple ys) acc =
     Inr (acc @ [(name x, name y, ratio (calculate_hash x) (calculate_hash y)).
                   x \<leftarrow> xs, y \<leftarrow> ys, name x \<noteq> name y,
                   8 / 10 < ratio (calculate_hash x) (calculate_hash y)])"
  using assms(2)
proof (induction xs arbitrary: acc)
  case Nil
  then show ?case by simp
next
  case (Cons x xs)
  then have x: "\<not> is_dir x" "content_hash x \<noteq> None"
    and xs: "\<forall>x \<in> set xs. \<not> is_dir x \<and> content_hash x \<noteq> None"
    by simp_all
  show ?case
    by (simp add: similar_inner_eq [OF x assms(1)] Cons.IH [OF xs])
qed

text \<open>
  C5, as stated, fails: with a file whose \<open>content_hash\<close> is unset in one tree and a
  file of another name in the other, the call raises an exception and returns no list:
  \<open>TypeError\<close> when the other file has a hash, \<open>AttributeError\<close> when it has none
  either.
\<close>

theorem find_similar_files_unhashed_counterexample:
  "find_similar_files
     (FileNode ''root'' True 0 None [FileNode ''a'' False 1 None []])
     (FileNode ''root'' True 0 None [FileNode ''b'' False 1 (Some ''abc'') []]) = Inl TypeError
   \<and> find_similar_files
     (FileNode ''root'' True 0 None [FileNode ''a'' False 1 None []])
     (FileNode ''root'' True 0 None [FileNode ''b'' False 1 None []]) = Inl AttributeError"
  by (simp add: find_similar_files_def SequenceMatcher_ratio_def)

text \<open>
  C5, amended. When every file node of both trees has its \<open>content_hash\<close> set,
  \<open>find_similar_files\<close> returns, in the order of its two loops, exactly the triples
  (name of x, name of y, score) for a file node x of the first tree and a file node y of
  the second with different names, where score is the \<open>ratio\<close> of their fingerprint
  strings (the sequences of their code points) and is greater than 0.8. No triple has
  two equal names.
\<close>

theorem find_similar_files_hashed:
  assumes "\<forall>n \<in> set (file_nodes a) \<union> set (file_nodes b). content_hash n \<noteq> None"
  shows "\<exists>res. find_similar_files a b = Inr res
    \<and> res = [(name x, name y, ratio (calculate_hash x) (calculate_hash y)).
              x \<leftarrow> file_nodes a, y \<leftarrow> file_nodes b, name x \<noteq> name y,
              8 / 10 < ratio (calculate_hash x) (calculate_hash y)]
    \<and> set res = {(name x, name y, ratio (calculate_hash x) (calculate_hash y)) | x y.
              x \<in> set (nodes a) \<and> \<not> is_dir x \<and> y \<in> set (nodes b) \<and> \<not> is_dir y \<and>
              name x \<noteq> name y \<and> 8 / 10 < ratio (calculate_hash x) (calculate_hash y)}
    \<and> (\<forall>t \<in> set res. fst t \<noteq> fst (snd t))"
proof -
  let ?L = "[(name x, name y, ratio (calculate_hash x) (calculate_hash y)).
              x \<leftarrow> file_nodes a, y \<leftarrow> file_nodes b, name x \<noteq> name y,
              8 / 10 < ratio (calculate_hash x) (calculate_hash y)]"
  have a: "\<forall>x \<in> set (file_nodes a). \<not> is_dir x \<and> content_hash x \<noteq> None"
    and b: "\<forall>y \<in> set (file_nodes b). \<not> is_dir y \<and> content_hash y \<noteq> None"
    using assms by (auto simp: file_nodes_def)
  have "find_similar_files a b = Inr ?L"
    using similar_outer_eq [OF b a, of "[]"]
    by (simp add: find_similar_files_def files_of_info)
  moreover have "set ?L = {(name x, name y, ratio (calculate_hash x) (calculate_hash y)) | x y.
              x \<in> set (nodes a) \<and> \<not> is_dir x \<and> y \<in> set (nodes b) \<and> \<not> is_dir y \<and>
              name x \<noteq> name y \<and> 8 / 10 < ratio (calculate_hash x) (calculate_hash y)}"
    by (auto simp: file_nodes_def)
  moreover have "\<forall>t \<in> set ?L. fst t \<noteq> fst (snd t)"
    by auto
  ultimately show ?thesis
    by blast
qed

theorem find_similar_files_hashed_witness:
  "find_similar_files
     (FileNode ''r'' True 0 None [FileNode ''a'' False 4 (Some ''abcd'') []])
     (FileNode ''q'' True 0 None
        [FileNode ''b'' False 4 (Some ''abcd'') [], FileNode ''a'' False 4 (Some ''abcd'') [],
         FileNode ''c'' False 4 (Some ''wxyz'') []])
   = Inr [(''a'', ''b'', 1)]
   \<and> find_similar_files
     (FileNode ''r'' True 0 None
        [FileNode ''p'' False 9
           (Some [CHR 0xC3, CHR 0xA9, CHR 0xC3, CHR 0xA9, CHR 0xC3, CHR 0xA9, CHR 0xC3, CHR 0xA9,
                  CHR ''x'']) []])
     (FileNode ''q'' True 0 None
        [FileNode ''t'' False 9
           (Some [CHR 0xC3, CHR 0xA9, CHR 0xC3, CHR 0xA9, CHR 0xC3, CHR 0xA9, CHR 0xC3, CHR 0xA9,
                  CHR ''y'']) []])
   = Inr []"
proof -
  have r: "ratio ''abcd'' ''abcd'' = 1" "ratio ''abcd'' ''wxyz'' = 0"
    "ratio [CHR 0xC3, CHR 0xA9, CHR 0xC3, CHR 0xA9, CHR 0xC3, CHR 0xA9, CHR 0xC3, CHR 0xA9, CHR ''x'']
           [CHR 0xC3, CHR 0xA9, CHR 0xC3, CHR 0xA9, CHR 0xC3, CHR 0xA9, CHR 0xC3, CHR 0xA9, CHR ''y'']
       = 4 / 5"
    by code_simp+
  have 1: "find_similar_files
     (FileNode ''r'' True 0 None [FileNode ''a'' False 4 (Some ''abcd'') []])
     (FileNode ''q'' True 0 None
        [FileNode ''b'' False 4 (Some ''abcd'') [], FileNode ''a'' False 4 (Some ''abcd'') [],
         FileNode ''c'' False 4 (Some ''wxyz'') []])
   = Inr [(''a'', ''b'', 1)]"
    using find_similar_files_hashed
      [of "FileNode ''r'' True 0 None [FileNode ''a'' False 4 (Some ''abcd'') []]"
          "FileNode ''q'' True 0 None
            [FileNode ''b'' False 4 (Some ''abcd'') [], FileNode ''a'' False 4 (Some ''abcd'') [],
             FileNode ''c'' False 4 (Some ''wxyz'') []]"]
    by (simp add: file_nodes_def or_empty_def r)
  have 2: "find_similar_files
     (FileNode ''r'' True 0 None
        [FileNode ''p'' False 9
           (Some [CHR 0xC3, CHR 0xA9, CHR 0xC3, CHR 0xA9, CHR 0xC3, CHR 0xA9, CHR 0xC3, CHR 0xA9,
                  CHR ''x'']) []])
     (FileNode ''q'' True 0 None
        [FileNode ''t'' False 9
           (Some [CHR 0xC3, CHR 0xA9, CHR 0xC3, CHR 0xA9, CHR 0xC3, CHR 0xA9, CHR 0xC3, CHR 0xA9,
                  CHR ''y'']) []])
   = Inr []"
    using find_similar_files_hashed
      [of "FileNode ''r'' True 0 None
             [FileNode ''p'' False 9
                (Some [CHR 0xC3, CHR 0xA9, CHR 0xC3, CHR 0xA9, CHR 0xC3, CHR 0xA9, CHR 0xC3, CHR 0xA9,
                       CHR ''x'']) []]"
          "FileNode ''q'' True 0 None
             [FileNode ''t'' False 9
                (Some [CHR 0xC3, CHR 0xA9, CHR 0xC3, CHR 0xA9, CHR 0xC3, CHR 0xA9, CHR 0xC3, CHR 0xA9,
                       CHR ''y'']) []]"]
    by (simp add: file_nodes_def or_empty_def r)
  from 1 2 show ?thesis
    by (rule conjI)
qed

section \<open>The end-to-end scenario\<close>

lemma similarity_lists:
  "fst (compare_trees a b) =
     of_nat (length (remdups (filter (\<lambda>x. x \<in> set (get_node_info b)) (get_node_info a)))) /
     of_nat (length (remdups (get_node_info a @ get_node_info b)))"
proof -
  have "set (get_node_info a) \<inter> set (get_node_info b) =
        set (filter (\<lambda>x. x \<in> set (get_node_info b)) (get_node_info a))"
    by auto
  then have "card (set (get_node_info a) \<inter> set (get_node_info b)) =
      length (remdups (filter (\<lambda>x. x \<in> set (get_node_info b)) (get_node_info a)))"
    by (simp add: length_remdups_card_conv)
  moreover have "card (set (get_node_info a) \<union> set (get_node_info b)) =
      length (remdups (get_node_info a @ get_node_info b))"
    by (simp add: length_remdups_card_conv)
  moreover have "set (get_node_info a) \<union> set (get_node_info b) \<noteq> {}"
    using get_node_info_not_Nil [of a] by simp
  ultimately show ?thesis
    by (simp add: compare_trees_def Let_def)
qed

text \<open>
  C4. In the scenario, \<open>compare_trees\<close> returns the similarity 3/5, which is less than
  1, and exactly two difference entries: one for fileX, the only element of A that B
  lacks, and one for fileW, the only element of B that A lacks (both labelled with the
  root name, root). \<open>find_similar_files\<close> returns the one triple (fileX, fileW, 1).
\<close>

theorem end_to_end_scenario:
  "fst (compare_trees scenario_A scenario_B) = 3 / 5
   \<and> fst (compare_trees scenario_A scenario_B) < 1
   \<and> snd (compare_trees scenario_A scenario_B) = {#''Only in root: fileX'', ''Only in root: fileW''#}
   \<and> size (snd (compare_trees scenario_A scenario_B)) = 2
   \<and> set (get_node_info scenario_A) - set (get_node_info scenario_B) =
       {(''fileX'', False, 10, Some ''abc'')}
   \<and> set (get_node_info scenario_B) - set (get_node_info scenario_A) =
       {(''fileW'', False, 10, Some ''abc'')}
   \<and> find_similar_files scenario_A scenario_B = Inr [(''fileX'', ''fileW'', 1)]"
proof -
  have sim: "fst (compare_trees scenario_A scenario_B) = 3 / 5"
    by (simp add: similarity_lists scenario_A_def scenario_B_def)
  have onlyA: "set (get_node_info scenario_A) - set (get_node_info scenario_B) =
      {(''fileX'', False, 10, Some ''abc'')}"
    by (auto simp add: scenario_A_def scenario_B_def)
  have onlyB: "set (get_node_info scenario_B) - set (get_node_info scenario_A) =
      {(''fileW'', False, 10, Some ''abc'')}"
    by (auto simp add: scenario_A_def scenario_B_def)
  have diffs: "snd (compare_trees scenario_A scenario_B) =
      {#''Only in root: fileX'', ''Only in root: fileW''#}"
    using differences_split [of scenario_A scenario_B]
    by (simp add: onlyA onlyB diff_entry_def) (simp add: scenario_A_def scenario_B_def)
  have similar: "find_similar_files scenario_A scenario_B = Inr [(''fileX'', ''fileW'', 1)]"
    by code_simp
  from sim have "fst (compare_trees scenario_A scenario_B) < 1"
    by simp
  moreover from diffs have "size (snd (compare_trees scenario_A scenario_B)) = 2"
    by simp
  ultimately show ?thesis
    using sim onlyA onlyB diffs similar by blast
qed

section \<open>Properties of process_tree\<close>

lemma repr_cong:
  "(\<And>r. node_children (h' r) = node_children (h r)) \<Longrightarrow> repr h' t = repr h t"
proof (induction t)
  case (Shape r ts)
  then have "list_all (repr h') ts = list_all (repr h) ts"
    by (induction ts) auto
  with Shape.prems show ?case
    by simp
qed

lemma mset_concat_rev: "mset (concat (map f (rev xs))) = mset (concat (map f xs))"
  by (induction xs) auto

lemma set_concat_rev: "set (concat (map f (rev xs))) = set (concat (map f xs))"
  by (metis mset_concat_rev set_mset_mset)

lemma distinct_concat_rev: "distinct (concat (map f (rev xs))) = distinct (concat (map f xs))"
  by (metis mset_concat_rev mset_eq_imp_distinct_iff)

lemma length_concat_rev: "length (concat (map f (rev xs))) = length (concat (map f xs))"
  by (metis mset_concat_rev size_mset)

lemma root_in_refs: "root_of t \<in> set (refs t)"
  by (cases t) simp

lemma Max_insert_max:
  "finite A \<Longrightarrow> Max (insert (max (m::int) d) A) = Max (insert m (insert d A))"
  by (cases "A = {}") (auto simp: max.assoc max.commute max.left_commute)

lemma all_refs_Cons:
  "all_refs ((Shape a cs, p) # rest) = a # concat (map refs cs) @ all_refs rest"
  by (simp add: all_refs_def)

lemma all_refs_children:
  "all_refs (rev (map (\<lambda>t. (t, Some a)) cs) @ rest) = concat (map refs (rev cs)) @ all_refs rest"
  by (simp add: all_refs_def rev_map comp_def)

lemma metrics_loop_correct:
  assumes "list_all (\<lambda>e. repr h (fst e)) ents"
    and "distinct (all_refs ents)"
    and "list_all (parent_ok h (set (all_refs ents))) ents"
  shows "\<exists>md' mb' h'. metrics_loop h (stack_of ents) md mb = Some (Inr (md', mb'), h') \<and>
           metrics_post h ents md mb md' mb' h'"
  using assms
proof (induction "length (all_refs ents)" arbitrary: ents h md mb rule: less_induct)
  case less
  show ?case
  proof (cases ents)
    case Nil
    then show ?thesis
      by (simp add: metrics_loop.simps stack_of_def metrics_post_def all_refs_def)
  next
    case (Cons e rest)
    obtain a cs p where e: "e = (Shape a cs, p)"
      by (metis prod.collapse shape.collapse)
    define R where "R = all_refs ents"
    define ents' where "ents' = rev (map (\<lambda>t. (t, Some a)) cs) @ rest"
    define R' where "R' = all_refs ents'"
    have R: "R = a # concat (map refs cs) @ all_refs rest"
      by (simp add: R_def Cons e all_refs_Cons)
    have R': "R' = concat (map refs (rev cs)) @ all_refs rest"
      by (simp add: R'_def ents'_def all_refs_children)
    have dR: "distinct R"
      using less.prems(2) by (simp add: R_def)
    have setR': "set R' = set R - {a}"
      using dR by (auto simp: R R' set_concat_rev)
    have sub: "set (concat (map refs cs)) \<subseteq> set R'" "set (all_refs rest) \<subseteq> set R'"
      by (auto simp: R' set_concat_rev)
    have aR: "a \<in> set R" "a \<notin> set R'"
      using setR' by (auto simp: R)
    have dR': "distinct R'"
      using dR by (simp add: R R' distinct_concat_rev set_concat_rev)
    have lR': "length R' < length R"
      by (simp add: R R' length_concat_rev)
    have ch: "node_children (h a) = map root_of cs" and rcs: "list_all (repr h) cs"
      and rrest: "list_all (\<lambda>e. repr h (fst e)) rest"
      using less.prems(1) by (simp_all add: Cons e)
    have pa: "parent_ok h (set R) (Shape a cs, p)"
      and prest: "list_all (parent_ok h (set R)) rest"
      using less.prems(3) by (simp_all add: Cons e R_def)
    obtain d1 h1 where
      step: "metrics_loop h (stack_of ents) md mb =
             metrics_loop h1 (stack_of ents') (max md d1) (max mb (int (length cs)))"
      and h1a: "depth (h1 a) = Some d1"
      and h1o: "\<And>r. r \<noteq> a \<Longrightarrow> h1 r = h r"
      and h1d: "\<And>r. h1 r = (h r)\<lparr>depth := depth (h1 r)\<rparr>"
      and start: "case p of None \<Rightarrow> depth (h a) = Some d1
                  | Some q \<Rightarrow> depth (h q) = Some (d1 - 1) \<and> q \<notin> set R"
    proof (cases p)
      case None
      with pa obtain d where d: "depth (h a) = Some d"
        by (auto simp: parent_ok_def)
      have "metrics_loop h (stack_of ents) md mb =
             metrics_loop h (stack_of ents') (max md d) (max mb (int (length cs)))"
        by (subst metrics_loop.simps)
           (simp add: Cons e None d ch stack_of_def ents'_def rev_map comp_def)
      with d None show ?thesis
        by (intro that [of h d]) simp_all
    next
      case (Some q)
      with pa obtain dq where dq: "depth (h q) = Some dq" and q: "q \<notin> set R"
        by (auto simp: parent_ok_def)
      let ?h1 = "h(a := (h a)\<lparr>depth := Some (dq + 1)\<rparr>)"
      have "metrics_loop h (stack_of ents) md mb =
             metrics_loop ?h1 (stack_of ents') (max md (dq + 1)) (max mb (int (length cs)))"
        by (subst metrics_loop.simps)
           (simp add: Cons e Some dq ch stack_of_def ents'_def rev_map comp_def)
      with dq q Some show ?thesis
        by (intro that [of ?h1 "dq + 1"]) simp_all
    qed
    have chh1: "\<And>r. node_children (h1 r) = node_children (h r)"
      by (subst h1d) simp
    have pre1: "list_all (\<lambda>e. repr h1 (fst e)) ents'"
      using rcs rrest by (auto simp: ents'_def list_all_iff repr_cong [of h1 h, OF chh1])
    have pre3: "list_all (parent_ok h1 (set R')) ents'"
    proof -
      have "parent_ok h1 (set R') (t, Some a)" for t
        using h1a aR by (simp add: parent_ok_def)
      moreover have "parent_ok h1 (set R') x" if "x \<in> set rest" for x
      proof -
        from that prest have px: "parent_ok h (set R) x"
          by (simp add: list_all_iff)
        have "root_of (fst x) \<in> set (all_refs rest)"
          using that root_in_refs [of "fst x"] by (auto simp: all_refs_def)
        then have "root_of (fst x) \<noteq> a"
          using dR by (auto simp: R)
        then have hr: "h1 (root_of (fst x)) = h (root_of (fst x))"
          by (rule h1o)
        show ?thesis
        proof (cases "snd x")
          case None
          with px hr show ?thesis
            by (simp add: parent_ok_def)
        next
          case (Some q)
          with px have q: "depth (h q) \<noteq> None" "q \<notin> set R"
            by (simp_all add: parent_ok_def)
          with aR have "q \<noteq> a"
            by auto
          then have "h1 q = h q"
            by (rule h1o)
          with q setR' Some show ?thesis
            by (simp add: parent_ok_def)
        qed
      qed
      ultimately show ?thesis
        by (auto simp: ents'_def list_all_iff)
    qed
    from less.hyps [of ents' h1 "max md d1" "max mb (int (length cs))"] lR' pre1 dR' pre3
    obtain md' mb' h' where
      res: "metrics_loop h1 (stack_of ents') (max md d1) (max mb (int (length cs))) =
              Some (Inr (md', mb'), h')"
      and post: "metrics_post h1 ents' (max md d1) (max mb (int (length cs))) md' mb' h'"
      unfolding R_def R'_def by blast
    from post have
      p1: "\<And>r. r \<notin> set R' \<Longrightarrow> h' r = h1 r" and
      p2: "\<And>r. h' r = (h1 r)\<lparr>depth := depth (h' r)\<rparr>" and
      p3: "\<And>r. r \<in> set R' \<Longrightarrow> depth (h' r) \<noteq> None" and
      p4: "\<And>x. x \<in> set ents' \<Longrightarrow> entry_ok h1 h' x" and
      p5: "md' = Max (insert (max md d1) ((\<lambda>r. the (depth (h' r))) ` set R'))" and
      p6: "mb' = Max (insert (max mb (int (length cs)))
                   ((\<lambda>r. int (length (node_children (h1 r)))) ` set R'))"
      unfolding metrics_post_def R'_def list_all_iff by blast+
    have h'a: "depth (h' a) = Some d1"
      using p1 [of a] aR h1a by simp
    have q1: "h' r = h r" if "r \<notin> set R" for r
    proof -
      from that aR have "r \<noteq> a" "r \<notin> set R'"
        using setR' by auto
      then show ?thesis
        using p1 h1o by simp
    qed
    have q2: "h' r = (h r)\<lparr>depth := depth (h' r)\<rparr>" for r
      by (subst p2, subst h1d) simp
    have q3: "depth (h' r) \<noteq> None" if "r \<in> set R" for r
      using that h'a p3 setR' by (cases "r = a") auto
    have root_e: "case p of None \<Rightarrow> depth (h' a) = depth (h a) | Some q \<Rightarrow> edge_ok h' (q, a)"
    proof (cases p)
      case None
      with start h'a show ?thesis by simp
    next
      case (Some q)
      with start have dq: "depth (h q) = Some (d1 - 1)" and q: "q \<notin> set R"
        by simp_all
      from q1 [OF q] dq h'a Some show ?thesis
        by (simp add: edge_ok_def)
    qed
    have child_edges: "edge_ok h' (a, root_of t) \<and> list_all (edge_ok h') (edges t)"
      if "t \<in> set cs" for t
    proof -
      from that have "(t, Some a) \<in> set ents'"
        by (simp add: ents'_def)
      from p4 [OF this] show ?thesis
        by (simp add: entry_ok_def)
    qed
    have q4e: "entry_ok h h' (Shape a cs, p)"
      using root_e child_edges by (cases p) (auto simp: entry_ok_def list_all_iff)
    have q4r: "entry_ok h h' x" if "x \<in> set rest" for x
    proof -
      from that have "entry_ok h1 h' x"
        by (intro p4) (simp add: ents'_def)
      moreover have "root_of (fst x) \<in> set (all_refs rest)"
        using that root_in_refs [of "fst x"] by (auto simp: all_refs_def)
      then have "root_of (fst x) \<noteq> a"
        using dR by (auto simp: R)
      then have "depth (h1 (root_of (fst x))) = depth (h (root_of (fst x)))"
        by (simp add: h1o)
      ultimately show ?thesis
        by (cases "snd x") (simp_all add: entry_ok_def)
    qed
    have q4: "list_all (entry_ok h h') ents"
      using q4e q4r by (simp add: Cons e list_all_iff)
    have insR: "set R = insert a (set R')"
      using setR' aR by auto
    have q5: "md' = Max (insert md ((\<lambda>r. the (depth (h' r))) ` set R))"
      unfolding p5 insR by (simp add: Max_insert_max h'a)
    have q6: "mb' = Max (insert mb ((\<lambda>r. int (length (node_children (h r)))) ` set R))"
      unfolding p6 insR by (simp add: Max_insert_max ch chh1)
    have "metrics_post h ents md mb md' mb' h'"
      unfolding metrics_post_def R_def [symmetric]
      using q1 q2 q3 q4 q5 q6 by blast
    with step res show ?thesis
      by simp
  qed
qed

lemma annotate_loop_correct:
  assumes "list_all (repr h) ts"
    and "distinct (concat (map refs ts))"
    and "\<forall>h' n. \<exists>w. W h' n rt = Inr w"
    and "MinHash num_perm = Inr m"
  shows "\<exists>h'. annotate_loop W MinHash update h rt num_perm (map root_of ts) = Some (Inr (), h') \<and>
           (\<forall>r. \<exists>w s. h' r = (h r)\<lparr>weight := w, signature := s\<rparr>) \<and>
           (\<forall>r. r \<notin> set (concat (map refs ts)) \<longrightarrow> h' r = h r) \<and>
           (\<forall>r \<in> set (concat (map refs ts)). weight (h' r) \<noteq> None \<and> signature (h' r) \<noteq> None)"
  using assms(1,2)
proof (induction "length (concat (map refs ts))" arbitrary: ts h rule: less_induct)
  case less
  show ?case
  proof (cases ts)
    case Nil
    have "h r = (h r)\<lparr>weight := weight (h r), signature := signature (h r)\<rparr>" for r
      by simp
    then have "\<forall>r. \<exists>w s. h r = (h r)\<lparr>weight := w, signature := s\<rparr>"
      by blast
    with Nil show ?thesis
      by (simp add: annotate_loop.simps)
  next
    case (Cons t rest)
    obtain a cs where t: "t = Shape a cs"
      by (cases t)
    from assms(3) obtain w where w: "W h a rt = Inr w"
      by blast
    define h1 where "h1 = h(a := (h a)\<lparr>weight := Some w\<rparr>)"
    obtain s where s: "compute_node_signature MinHash update h1 a num_perm = Inr s"
      using assms(4) by (simp add: compute_node_signature_def)
    define h2 where "h2 = h1(a := (h1 a)\<lparr>signature := Some s\<rparr>)"
    define ts' where "ts' = rev cs @ rest"
    have ch: "node_children (h a) = map root_of cs" and rcs: "list_all (repr h) cs"
      and rrest: "list_all (repr h) rest"
      using less.prems(1) by (simp_all add: Cons t)
    have chh2: "\<And>r. node_children (h2 r) = node_children (h r)"
      by (simp add: h2_def h1_def)
    have step: "annotate_loop W MinHash update h rt num_perm (map root_of ts) =
                annotate_loop W MinHash update h2 rt num_perm (map root_of ts')"
      by (subst annotate_loop.simps)
         (simp add: Cons t w s [unfolded h1_def] Let_def h2_def h1_def ch ts'_def rev_map)
    have d: "distinct (a # concat (map refs cs) @ concat (map refs rest))"
      using less.prems(2) by (simp add: Cons t)
    have refs': "set (concat (map refs ts')) = set (concat (map refs cs)) \<union> set (concat (map refs rest))"
      by (simp add: ts'_def set_concat_rev)
    have a: "a \<notin> set (concat (map refs ts'))"
      using d unfolding refs' by auto
    have pre1: "list_all (repr h2) ts'"
      using rcs rrest by (auto simp: ts'_def list_all_iff repr_cong [of h2 h, OF chh2])
    have pre2: "distinct (concat (map refs ts'))"
      using d by (simp add: ts'_def distinct_concat_rev set_concat_rev)
    have len: "length (concat (map refs ts')) < length (concat (map refs ts))"
      by (simp add: ts'_def Cons t length_concat_rev)
    from less.hyps [OF len pre1 pre2] obtain h' where
      res: "annotate_loop W MinHash update h2 rt num_perm (map root_of ts') = Some (Inr (), h')"
      and upd: "\<And>r. \<exists>w s. h' r = (h2 r)\<lparr>weight := w, signature := s\<rparr>"
      and frame: "\<And>r. r \<notin> set (concat (map refs ts')) \<Longrightarrow> h' r = h2 r"
      and set': "\<And>r. r \<in> set (concat (map refs ts')) \<Longrightarrow>
                  weight (h' r) \<noteq> None \<and> signature (h' r) \<noteq> None"
      by blast
    have "\<exists>w s. h' r = (h r)\<lparr>weight := w, signature := s\<rparr>" for r
    proof -
      from upd [of r] obtain w' s' where "h' r = (h2 r)\<lparr>weight := w', signature := s'\<rparr>"
        by blast
      then have "h' r = (h r)\<lparr>weight := w', signature := s'\<rparr>"
        by (simp add: h2_def h1_def)
      then show ?thesis
        by blast
    qed
    moreover have "weight (h' r) \<noteq> None \<and> signature (h' r) \<noteq> None"
      if "r \<in> set (concat (map refs ts))" for r
    proof (cases "r = a")
      case True
      from frame [OF a] show ?thesis
        using True by (simp add: h2_def h1_def)
    next
      case False
      with that have "r \<in> set (concat (map refs ts'))"
        unfolding refs' by (auto simp: Cons t)
      then show ?thesis
        by (rule set')
    qed
    moreover have "h' r = h r" if "r \<notin> set (concat (map refs ts))" for r
    proof -
      from that have "r \<noteq> a" "r \<notin> set (concat (map refs ts'))"
        unfolding refs' by (auto simp: Cons t)
      with frame [of r] show ?thesis
        by (simp add: h2_def h1_def)
    qed
    ultimately show ?thesis
      unfolding step res by blast
  qed
qed

lemma metrics_pass:
  assumes "repr h T" and "distinct (refs T)" and "depth (h (root_of T)) = Some d0"
  shows "\<exists>md mb h1. metrics_loop h [(root_of T, None)] 0 0 = Some (Inr (md, mb), h1) \<and>
      (\<forall>r. h1 r = (h r)\<lparr>depth := depth (h1 r)\<rparr>) \<and>
      (\<forall>r \<in> set (refs T). depth (h1 r) \<noteq> None) \<and>
      depth (h1 (root_of T)) = Some d0 \<and>
      list_all (edge_ok h1) (edges T) \<and>
      md = Max (insert 0 ((\<lambda>r. the (depth (h1 r))) ` set (refs T))) \<and>
      mb = Max (insert 0 ((\<lambda>r. int (length (node_children (h r)))) ` set (refs T)))"
proof -
  have "\<exists>md' mb' h'. metrics_loop h (stack_of [(T, None)]) 0 0 = Some (Inr (md', mb'), h') \<and>
           metrics_post h [(T, None)] 0 0 md' mb' h'"
    using assms by (intro metrics_loop_correct) (simp_all add: all_refs_def parent_ok_def)
  then show ?thesis
    using assms(3) by (auto simp: stack_of_def metrics_post_def all_refs_def entry_ok_def)
qed

lemma annotate_root_fails:
  assumes "MinHash num_perm = Inl e"
  shows "annotate_loop W MinHash update h rt num_perm [rt] =
         (case W h rt rt of
            Inl e' \<Rightarrow> Some (Inl e', h)
          | Inr w \<Rightarrow> Some (Inl e, h(rt := (h rt)\<lparr>weight := Some w\<rparr>)))"
  by (subst annotate_loop.simps) (simp add: assms compute_node_signature_def split: sum.splits)

lemma heap0_simps:
  "heap0 0 = node0\<lparr>node_name := ''root'', node_children := [1, 2], depth := Some 0\<rparr>"
  "heap0 1 = node0\<lparr>node_name := ''a'', node_children := [3]\<rparr>"
  "heap0 (Suc 0) = node0\<lparr>node_name := ''a'', node_children := [3]\<rparr>"
  "heap0 2 = node0\<lparr>node_name := ''b''\<rparr>"
  "heap0 3 = node0\<lparr>node_name := ''c''\<rparr>"
  by (simp_all add: heap0_def)

text \<open>
  What \<open>process_tree\<close> does on a well-formed tree whose root has the depth 0 before the
  call, with a weight capability and a MinHash constructor that do not raise: it
  completes, the depth of the root is still 0, the depth of every other node is the depth
  of its parent plus 1, \<open>max_depth\<close> of the root is the maximum depth over all nodes and
  \<open>max_branching_factor\<close> of the root the maximum number of children over all nodes; the
  children of no node have changed. Both loops end.
\<close>

lemma process_tree_metrics:
  assumes "repr h T" and "distinct (refs T)"
    and "depth (h (root_of T)) = Some 0"
    and "\<forall>h' n. \<exists>w. W h' n (root_of T) = Inr w"
    and "MinHash num_perm = Inr m"
  shows "\<exists>h'. process_tree W MinHash update h (root_of T) num_perm = Some (Inr (), h')
     \<and> depth (h' (root_of T)) = Some 0
     \<and> (\<forall>e \<in> set (edges T). \<exists>d. depth (h' (fst e)) = Some d \<and> depth (h' (snd e)) = Some (d + 1))
     \<and> max_depth (h' (root_of T)) = Some (Max ((\<lambda>r. the (depth (h' r))) ` set (refs T)))
     \<and> max_branching_factor (h' (root_of T)) =
         Some (Max ((\<lambda>r. int (length (node_children (h' r)))) ` set (refs T)))
     \<and> (\<forall>r. node_children (h' r) = node_children (h r))"
proof -
  let ?root = "root_of T"
  from metrics_pass [OF assms(1-3)] obtain md mb h1 where
    loop: "metrics_loop h [(?root, None)] 0 0 = Some (Inr (md, mb), h1)"
    and h1: "\<And>r. h1 r = (h r)\<lparr>depth := depth (h1 r)\<rparr>"
    and root: "depth (h1 ?root) = Some 0"
    and edges: "list_all (edge_ok h1) (edges T)"
    and md: "md = Max (insert 0 ((\<lambda>r. the (depth (h1 r))) ` set (refs T)))"
    and mb: "mb = Max (insert 0 ((\<lambda>r. int (length (node_children (h r)))) ` set (refs T)))"
    by blast
  define h2 where
    "h2 = h1(?root := (h1 ?root)\<lparr>max_depth := Some md, max_branching_factor := Some mb\<rparr>)"
  have ch1: "\<And>r. node_children (h1 r) = node_children (h r)"
    by (subst h1) simp
  have ch2: "\<And>r. node_children (h2 r) = node_children (h r)"
    by (simp add: h2_def ch1)
  have d2: "\<And>r. depth (h2 r) = depth (h1 r)"
    by (simp add: h2_def)
  have "list_all (repr h2) [T]"
    using assms(1) by (simp add: repr_cong [of h2 h, OF ch2])
  moreover have "distinct (concat (map refs [T]))"
    using assms(2) by simp
  ultimately have "\<exists>h'. annotate_loop W MinHash update h2 ?root num_perm (map root_of [T]) =
           Some (Inr (), h') \<and>
           (\<forall>r. \<exists>w s. h' r = (h2 r)\<lparr>weight := w, signature := s\<rparr>) \<and>
           (\<forall>r. r \<notin> set (concat (map refs [T])) \<longrightarrow> h' r = h2 r) \<and>
           (\<forall>r \<in> set (concat (map refs [T])). weight (h' r) \<noteq> None \<and> signature (h' r) \<noteq> None)"
    using assms(4,5) by (rule annotate_loop_correct)
  then obtain h' where
    ann: "annotate_loop W MinHash update h2 ?root num_perm [?root] = Some (Inr (), h')"
    and h': "\<And>r. \<exists>w s. h' r = (h2 r)\<lparr>weight := w, signature := s\<rparr>"
    by auto
  have d': "depth (h' r) = depth (h1 r)" for r
    using h' [of r] d2 [of r] by auto
  have c': "node_children (h' r) = node_children (h r)" for r
    using h' [of r] ch2 [of r] by auto
  have m': "max_depth (h' ?root) = Some md" "max_branching_factor (h' ?root) = Some mb"
    using h' [of ?root] by (auto simp: h2_def)
  have res: "process_tree W MinHash update h ?root num_perm = Some (Inr (), h')"
    by (simp add: process_tree_def loop h2_def [symmetric] ann)
  have rootin: "?root \<in> set (refs T)"
    by (rule root_in_refs)
  have "the (depth (h1 ?root)) \<in> (\<lambda>r. the (depth (h1 r))) ` set (refs T)"
    using rootin by (rule imageI)
  then have "insert 0 ((\<lambda>r. the (depth (h1 r))) ` set (refs T)) =
      (\<lambda>r. the (depth (h1 r))) ` set (refs T)"
    using root by auto
  then have md': "md = Max ((\<lambda>r. the (depth (h' r))) ` set (refs T))"
    by (simp add: md d')
  let ?B = "(\<lambda>r. int (length (node_children (h r)))) ` set (refs T)"
  have "?B \<noteq> {}" "finite ?B"
    using rootin by auto
  then have "Max (insert 0 ?B) = max 0 (Max ?B)"
    by simp
  moreover have "int (length (node_children (h ?root))) \<le> Max ?B"
    using rootin by (intro Max_ge) auto
  then have "0 \<le> Max ?B"
    by linarith
  ultimately have mb': "mb = Max ((\<lambda>r. int (length (node_children (h' r)))) ` set (refs T))"
    by (simp add: mb c')
  have "\<forall>e \<in> set (edges T). \<exists>d. depth (h' (fst e)) = Some d \<and> depth (h' (snd e)) = Some (d + 1)"
    using edges by (simp add: list_all_iff edge_ok_def d')
  with res root md' mb' m' c' show ?thesis
    by (simp add: d')
qed

lemma process_tree_metrics_example:
  "\<exists>h'. process_tree (\<lambda>h n r. Inr (1::nat)) (\<lambda>k. Inr []) (\<lambda>m s. s # m) heap0 0 128 = Some (Inr (), h')
     \<and> depth (h' 0) = Some 0 \<and> depth (h' 1) = Some 1 \<and> depth (h' 2) = Some 1 \<and> depth (h' 3) = Some 2
     \<and> max_depth (h' 0) = Some 2 \<and> max_branching_factor (h' 0) = Some 2"
proof -
  have "\<exists>h'. process_tree (\<lambda>h n r. Inr (1::nat)) (\<lambda>k. Inr []) (\<lambda>m s. s # m) heap0 (root_of shape0) 128 =
          Some (Inr (), h')
     \<and> depth (h' (root_of shape0)) = Some 0
     \<and> (\<forall>e \<in> set (edges shape0). \<exists>d. depth (h' (fst e)) = Some d \<and> depth (h' (snd e)) = Some (d + 1))
     \<and> max_depth (h' (root_of shape0)) = Some (Max ((\<lambda>r. the (depth (h' r))) ` set (refs shape0)))
     \<and> max_branching_factor (h' (root_of shape0)) =
         Some (Max ((\<lambda>r. int (length (node_children (h' r)))) ` set (refs shape0)))
     \<and> (\<forall>r. node_children (h' r) = node_children (heap0 r))"
    by (rule process_tree_metrics [where m = "[]"])
       (simp_all add: shape0_def heap0_simps node0_def)
  then obtain h' where
    1: "process_tree (\<lambda>h n r. Inr (1::nat)) (\<lambda>k. Inr []) (\<lambda>m s. s # m) heap0 0 128 = Some (Inr (), h')"
    and 2: "depth (h' 0) = Some 0"
    and 3: "\<forall>e \<in> set (edges shape0). \<exists>d. depth (h' (fst e)) = Some d \<and> depth (h' (snd e)) = Some (d + 1)"
    and 4: "max_depth (h' 0) = Some (Max ((\<lambda>r. the (depth (h' r))) ` set (refs shape0)))"
    and 5: "max_branching_factor (h' 0) =
         Some (Max ((\<lambda>r. int (length (node_children (h' r)))) ` set (refs shape0)))"
    and 6: "\<forall>r. node_children (h' r) = node_children (heap0 r)"
    by (auto simp: shape0_def)
  from 2 3 have d: "depth (h' 1) = Some 1" "depth (h' 2) = Some 1"
    by (auto simp: shape0_def)
  with 3 have d3: "depth (h' 3) = Some 2"
    by (auto simp: shape0_def)
  from 4 2 d d3 have "max_depth (h' 0) = Some 2"
    by (simp add: shape0_def)
  moreover from 5 6 have "max_branching_factor (h' 0) = Some 2"
    by (simp add: shape0_def heap0_simps node0_def)
  ultimately show ?thesis
    using 1 2 d d3 by blast
qed

text \<open>
  C1. The code does not do what the claim says. The first loop assigns a depth under
  \<^verbatim>\<open>if parent:\<close> only, so never to the root, and reads \<^verbatim>\<open>node.depth\<close> of the root in
  the next statement. On a tree as the repository builds it, where no node has a depth,
  \<open>process_tree\<close> raises \<open>AttributeError\<close> at the root and changes nothing: so on the
  single node of \<open>heap_unset\<close> and on the four nodes of \<open>heap_scanned\<close>, both well-formed
  trees. When the root has a depth left by an earlier call, it keeps it: after
  \<open>process_tree\<close> on \<open>heap0\<close>, the call on the well-formed subtree under the reference
  1 completes and leaves the depth of that root at 1, not 0.
\<close>

theorem process_tree_root_depth_unassigned:
  "repr heap_unset (Shape 0 []) \<and> distinct (refs (Shape 0 []))
   \<and> process_tree0 heap_unset 0 = Some (Inl AttributeError, heap_unset)
   \<and> repr heap_scanned shape0 \<and> distinct (refs shape0)
   \<and> process_tree0 heap_scanned 0 = Some (Inl AttributeError, heap_scanned)
   \<and> fst (the (process_tree0 heap0 0)) = Inr ()
   \<and> repr (snd (the (process_tree0 heap0 0))) (Shape 1 [Shape 3 []])
   \<and> distinct (refs (Shape 1 [Shape 3 []]))
   \<and> fst (the (process_tree0 (snd (the (process_tree0 heap0 0))) 1)) = Inr ()
   \<and> depth (snd (the (process_tree0 (snd (the (process_tree0 heap0 0))) 1)) 1) = Some 1"
  by (simp add: process_tree0_def process_tree_def metrics_loop.simps annotate_loop.simps
        compute_node_signature_def heap_unset_def heap_scanned_def shape0_def heap0_def node0_def)

text \<open>
  C7, as stated, fails. \<open>process_tree\<close> does not look at \<^verbatim>\<open>num_perm\<close>: it hands it to
  the MinHash constructor for the first node of the second traversal. With a constructor
  that accepts 0 the call completes without any error. With a constructor that rejects 0,
  even one raising \<open>ConfigError\<close> itself, the call fails only after the first traversal
  has given the node 3 its depth and after the root has received its weight.
\<close>

theorem process_tree_num_perm_counterexample:
  "fst (the (process_tree (\<lambda>h n r. Inr (1::nat)) (\<lambda>k. Inr []) (\<lambda>m s. s # m) heap0 0 0)) = Inr ()
   \<and> fst (the (process_tree (\<lambda>h n r. Inr (1::nat)) (\<lambda>k. if k = 0 then Inl ConfigError else Inr [])
                 (\<lambda>m s. s # m) heap0 0 0)) = Inl ConfigError
   \<and> weight (heap0 0) = None
   \<and> weight (snd (the (process_tree (\<lambda>h n r. Inr (1::nat)) (\<lambda>k. if k = 0 then Inl ConfigError else Inr [])
                 (\<lambda>m s. s # m) heap0 0 0)) 0) = Some 1
   \<and> depth (heap0 3) = None
   \<and> depth (snd (the (process_tree (\<lambda>h n r. Inr (1::nat)) (\<lambda>k. if k = 0 then Inl ConfigError else Inr [])
                 (\<lambda>m s. s # m) heap0 0 0)) 3) = Some 2"
  by (simp add: process_tree_def metrics_loop.simps annotate_loop.simps compute_node_signature_def
        heap0_def node0_def)

text \<open>
  C7, amended. \<open>process_tree\<close> validates nothing: \<^verbatim>\<open>num_perm\<close> only reaches the MinHash
  constructor, called for the first node of the second traversal. On a well-formed tree
  whose root has a depth, when that constructor raises an exception for the given
  \<^verbatim>\<open>num_perm\<close>, the first traversal first runs over the whole tree: in the heap it
  leaves, every node has a depth, the root has \<open>max_depth\<close> and
  \<open>max_branching_factor\<close>, and weights and signatures are as they were. Then the weight
  capability is called for the root on that heap. If it raises, \<open>process_tree\<close> raises
  its exception; otherwise the root receives the weight and \<open>process_tree\<close> raises the
  exception of the constructor. No signature is assigned.
\<close>

theorem process_tree_no_validation:
  assumes "repr h T" and "distinct (refs T)"
    and "depth (h (root_of T)) = Some d0"
    and "MinHash num_perm = Inl e"
  shows "\<exists>h2. (\<forall>r \<in> set (refs T). depth (h2 r) \<noteq> None)
     \<and> max_depth (h2 (root_of T)) \<noteq> None \<and> max_branching_factor (h2 (root_of T)) \<noteq> None
     \<and> (\<forall>r. weight (h2 r) = weight (h r) \<and> signature (h2 r) = signature (h r))
     \<and> process_tree W MinHash update h (root_of T) num_perm =
         (case W h2 (root_of T) (root_of T) of
            Inl e' \<Rightarrow> Some (Inl e', h2)
          | Inr w \<Rightarrow>
              Some (Inl e, h2((root_of T) := (h2 (root_of T))\<lparr>weight := Some w\<rparr>)))"
proof -
  let ?root = "root_of T"
  from metrics_pass [OF assms(1-3)] obtain md mb h1 where
    loop: "metrics_loop h [(?root, None)] 0 0 = Some (Inr (md, mb), h1)"
    and h1: "\<And>r. h1 r = (h r)\<lparr>depth := depth (h1 r)\<rparr>"
    and set: "\<And>r. r \<in> set (refs T) \<Longrightarrow> depth (h1 r) \<noteq> None"
    by blast
  define h2 where
    "h2 = h1(?root := (h1 ?root)\<lparr>max_depth := Some md, max_branching_factor := Some mb\<rparr>)"
  have "process_tree W MinHash update h ?root num_perm =
          annotate_loop W MinHash update h2 ?root num_perm [?root]"
    by (simp add: process_tree_def loop h2_def [symmetric])
  also have "\<dots> = (case W h2 ?root ?root of
            Inl e' \<Rightarrow> Some (Inl e', h2)
          | Inr w \<Rightarrow> Some (Inl e, h2(?root := (h2 ?root)\<lparr>weight := Some w\<rparr>)))"
    using assms(4) by (rule annotate_root_fails)
  finally have res: "process_tree W MinHash update h ?root num_perm =
         (case W h2 ?root ?root of
            Inl e' \<Rightarrow> Some (Inl e', h2)
          | Inr w \<Rightarrow> Some (Inl e, h2(?root := (h2 ?root)\<lparr>weight := Some w\<rparr>)))" .
  have d2: "depth (h2 r) = depth (h1 r)" for r
    by (simp add: h2_def)
  have ws: "weight (h2 r) = weight (h r) \<and> signature (h2 r) = signature (h r)" for r
  proof -
    have "weight (h2 r) = weight (h1 r) \<and> signature (h2 r) = signature (h1 r)"
      by (simp add: h2_def)
    also have "weight (h1 r) = weight (h r)"
      by (subst h1) simp
    also have "signature (h1 r) = signature (h r)"
      by (subst h1) simp
    finally show ?thesis .
  qed
  have m2: "max_depth (h2 ?root) \<noteq> None" "max_branching_factor (h2 ?root) \<noteq> None"
    by (simp_all add: h2_def)
  from set d2 have "\<forall>r \<in> set (refs T). depth (h2 r) \<noteq> None"
    by simp
  with m2 ws res show ?thesis
    by blast
qed

theorem process_tree_no_validation_witness:
  "\<exists>h'. process_tree (\<lambda>h n r. Inr (1::nat)) (\<lambda>k. if k = 0 then Inl (External ''IndexError'') else Inr [])
           (\<lambda>m s. s # m) heap0 0 0 = Some (Inl (External ''IndexError''), h')
     \<and> depth (h' 0) \<noteq> None \<and> depth (h' 1) \<noteq> None \<and> depth (h' 2) \<noteq> None \<and> depth (h' 3) \<noteq> None
     \<and> max_depth (h' 0) \<noteq> None \<and> max_branching_factor (h' 0) \<noteq> None
     \<and> weight (h' 0) = Some 1 \<and> signature (h' 0) = None"
proof -
  let ?W = "\<lambda>(h :: (nat, string list) heap) (n :: ref) (r :: ref). (Inr (1::nat) :: error + nat)"
  let ?M = "\<lambda>k :: int. if k = 0 then Inl (External ''IndexError'') else (Inr [] :: error + string list)"
  have "\<exists>h2. (\<forall>r \<in> set (refs shape0). depth (h2 r) \<noteq> None)
     \<and> max_depth (h2 (root_of shape0)) \<noteq> None \<and> max_branching_factor (h2 (root_of shape0)) \<noteq> None
     \<and> (\<forall>r. weight (h2 r) = weight (heap0 r) \<and> signature (h2 r) = signature (heap0 r))
     \<and> process_tree ?W ?M (\<lambda>m s. s # m) heap0 (root_of shape0) 0 =
         (case ?W h2 (root_of shape0) (root_of shape0) of
            Inl e' \<Rightarrow> Some (Inl e', h2)
          | Inr w \<Rightarrow>
              Some (Inl (External ''IndexError''),
                    h2((root_of shape0) := (h2 (root_of shape0))\<lparr>weight := Some w\<rparr>)))"
    by (rule process_tree_no_validation [where ?d0.0 = 0])
       (simp_all add: shape0_def heap0_simps node0_def)
  then obtain h2 where
    d: "\<forall>r \<in> set (refs shape0). depth (h2 r) \<noteq> None"
    and m: "max_depth (h2 0) \<noteq> None" "max_branching_factor (h2 0) \<noteq> None"
    and s: "signature (h2 0) = signature (heap0 0)"
    and res: "process_tree ?W ?M (\<lambda>m s. s # m) heap0 0 0 =
                Some (Inl (External ''IndexError''), h2(0 := (h2 0)\<lparr>weight := Some 1\<rparr>))"
    by (auto simp: shape0_def)
  let ?h' = "h2(0 := (h2 0)\<lparr>weight := Some 1\<rparr>)"
  from d have "depth (?h' 0) \<noteq> None" "depth (?h' 1) \<noteq> None" "depth (?h' 2) \<noteq> None"
    "depth (?h' 3) \<noteq> None"
    by (simp_all add: shape0_def)
  moreover from m have "max_depth (?h' 0) \<noteq> None" "max_branching_factor (?h' 0) \<noteq> None"
    by simp_all
  moreover from s have "weight (?h' 0) = Some 1" "signature (?h' 0) = None"
    by (simp_all add: heap0_simps node0_def)
  ultimately show ?thesis
    using res by blast
qed

end
